theory Spec2Isabelle
  imports Complex_Main "HOL-Library.Log_Nat"
begin

section \<open>Python numbers\<close>

text \<open>
  The calculator's functions are annotated \<^verbatim>\<open>float\<close>, but Python does not enforce
  the annotation and the test suite calls them with \<^verbatim>\<open>int\<close> arguments, so a number is
  either an unbounded \<^verbatim>\<open>int\<close> or a \<^verbatim>\<open>float\<close> (an IEEE 754 binary64 value).

  A finite double is kept in sign-magnitude form: \<open>Finite s m\<close> is the value \<open>m\<close>
  (\<open>0 \<le> m\<close>) with sign bit \<open>s\<close> (\<open>True\<close> is negative), so \<open>Finite True 0\<close> is \<^verbatim>\<open>-0.0\<close>.
\<close>

datatype double = Finite bool real | Infinity bool | NaN

datatype number = PInt int | PFloat double

text \<open>
  The exceptions the operations can raise, with their messages. The two messages of
  \<open>ValueError\<close> that the calculator itself raises are fixed by the source; the texts of
  the interpreter's own exceptions are those of CPython 3.12.
\<close>

datatype error = ValueError string | OverflowError string | ZeroDivisionError string

subsection \<open>Rounding to binary64 (round to nearest, ties to even)\<close>

definition round_half_even :: "real \<Rightarrow> int" where
  "round_half_even x =
     (let f = \<lfloor>x\<rfloor>; d = x - of_int f
      in if d < 1/2 then f else if 1/2 < d then f + 1 else if even f then f else f + 1)"

text \<open>The binary exponent \<open>\<lfloor>log\<^sub>2 x\<rfloor>\<close> of a positive real, computed on integers.\<close>

definition ilog2 :: "real \<Rightarrow> int" where
  "ilog2 x = (if 1 \<le> x then bitlen \<lfloor>x\<rfloor> - 1 else - bitlen (\<lceil>1 / x\<rceil> - 1))"

text \<open>
  \<open>round_mag x\<close> rounds a magnitude \<open>x \<ge> 0\<close> to the nearest binary64 magnitude: 53
  significant bits, the exponent of the smallest normal number (\<open>-1022\<close>) as the lower
  limit, which gives the subnormal numbers their fixed spacing \<open>2\<^sup>-\<^sup>1\<^sup>0\<^sup>7\<^sup>4\<close>. \<open>None\<close> is
  overflow: the rounded value would be \<open>2\<^sup>1\<^sup>0\<^sup>2\<^sup>4\<close> or more.
\<close>

definition round_mag :: "real \<Rightarrow> real option" where
  "round_mag x =
     (if x = 0 then Some 0
      else let e = max (ilog2 x) (- 1022);
               u = 2 powi (e - 52);
               r = of_int (round_half_even (x / u)) * u
           in if 2 powi 1024 \<le> r then None else Some r)"

text \<open>The result of an IEEE operation with sign \<open>s\<close> and exact magnitude \<open>m\<close>.\<close>

definition round_sm :: "bool \<Rightarrow> real \<Rightarrow> double" where
  "round_sm s m = (case round_mag m of None \<Rightarrow> Infinity s | Some r \<Rightarrow> Finite s r)"

definition signed :: "bool \<Rightarrow> real \<Rightarrow> real" where
  "signed s m = (if s then - m else m)"

text \<open>The doubles are the values that rounding leaves alone.\<close>

fun is_double :: "double \<Rightarrow> bool" where
  "is_double (Finite s m) = (0 \<le> m \<and> round_mag m = Some m)"
| "is_double (Infinity s) = True"
| "is_double NaN = True"

fun is_number :: "number \<Rightarrow> bool" where
  "is_number (PInt i) = True"
| "is_number (PFloat x) = is_double x"

fun is_finite :: "number \<Rightarrow> bool" where
  "is_finite (PInt i) = True"
| "is_finite (PFloat (Finite s m)) = True"
| "is_finite (PFloat (Infinity s)) = False"
| "is_finite (PFloat NaN) = False"

fun is_nan :: "number \<Rightarrow> bool" where
  "is_nan (PFloat NaN) = True"
| "is_nan (PFloat (Finite s m)) = False"
| "is_nan (PFloat (Infinity s)) = False"
| "is_nan (PInt i) = False"

subsection \<open>IEEE 754 arithmetic on doubles\<close>

fun fneg :: "double \<Rightarrow> double" where
  "fneg (Finite s m) = Finite (\<not> s) m"
| "fneg (Infinity s) = Infinity (\<not> s)"
| "fneg NaN = NaN"

fun fabs :: "double \<Rightarrow> double" where
  "fabs (Finite s m) = Finite False m"
| "fabs (Infinity s) = Infinity False"
| "fabs NaN = NaN"

text \<open>
  An exact zero sum has the sign of the operands when they agree, and is \<^verbatim>\<open>+0.0\<close>
  otherwise.
\<close>

fun fadd :: "double \<Rightarrow> double \<Rightarrow> double" where
  "fadd NaN y = NaN"
| "fadd (Finite s m) NaN = NaN"
| "fadd (Infinity s) NaN = NaN"
| "fadd (Infinity s) (Infinity t) = (if s = t then Infinity s else NaN)"
| "fadd (Infinity s) (Finite t n) = Infinity s"
| "fadd (Finite s m) (Infinity t) = Infinity t"
| "fadd (Finite s m) (Finite t n) =
     (let v = signed s m + signed t n
      in if v = 0 then Finite (s \<and> t) 0 else round_sm (v < 0) \<bar>v\<bar>)"

definition fsub :: "double \<Rightarrow> double \<Rightarrow> double" where
  "fsub x y = fadd x (fneg y)"

fun fmul :: "double \<Rightarrow> double \<Rightarrow> double" where
  "fmul NaN y = NaN"
| "fmul (Finite s m) NaN = NaN"
| "fmul (Infinity s) NaN = NaN"
| "fmul (Infinity s) (Infinity t) = Infinity (s \<noteq> t)"
| "fmul (Infinity s) (Finite t n) = (if n = 0 then NaN else Infinity (s \<noteq> t))"
| "fmul (Finite s m) (Infinity t) = (if m = 0 then NaN else Infinity (s \<noteq> t))"
| "fmul (Finite s m) (Finite t n) = round_sm (s \<noteq> t) (m * n)"

fun fdiv :: "double \<Rightarrow> double \<Rightarrow> double" where
  "fdiv NaN y = NaN"
| "fdiv (Finite s m) NaN = NaN"
| "fdiv (Infinity s) NaN = NaN"
| "fdiv (Infinity s) (Infinity t) = NaN"
| "fdiv (Infinity s) (Finite t n) = Infinity (s \<noteq> t)"
| "fdiv (Finite s m) (Infinity t) = Finite (s \<noteq> t) 0"
| "fdiv (Finite s m) (Finite t n) =
     (if n = 0 then (if m = 0 then NaN else Infinity (s \<noteq> t))
      else round_sm (s \<noteq> t) (m / n))"

text \<open>Comparisons: \<open>NaN\<close> compares false with everything, the two zeros are equal.\<close>

fun feq :: "double \<Rightarrow> double \<Rightarrow> bool" where
  "feq (Finite s m) (Finite t n) = (signed s m = signed t n)"
| "feq (Infinity s) (Infinity t) = (s = t)"
| "feq x y = False"

fun fless :: "double \<Rightarrow> double \<Rightarrow> bool" where
  "fless (Finite s m) (Finite t n) = (signed s m < signed t n)"
| "fless (Finite s m) (Infinity t) = (\<not> t)"
| "fless (Infinity s) (Finite t n) = s"
| "fless (Infinity s) (Infinity t) = (s \<and> \<not> t)"
| "fless x y = False"

definition fle :: "double \<Rightarrow> double \<Rightarrow> bool" where
  "fle x y = (fless x y \<or> feq x y)"

subsection \<open>Python's operators on numbers\<close>

text \<open>
  Python compares an \<^verbatim>\<open>int\<close> with a \<^verbatim>\<open>float\<close> exactly, without rounding the
  \<^verbatim>\<open>int\<close>; \<open>exact\<close> is the exact value of a number.
\<close>

fun exact :: "number \<Rightarrow> double" where
  "exact (PInt i) = Finite (i < 0) (of_int \<bar>i\<bar>)"
| "exact (PFloat x) = x"

definition py_eq :: "number \<Rightarrow> number \<Rightarrow> bool" where
  "py_eq a b = feq (exact a) (exact b)"

definition py_lt :: "number \<Rightarrow> number \<Rightarrow> bool" where
  "py_lt a b = fless (exact a) (exact b)"

definition py_le :: "number \<Rightarrow> number \<Rightarrow> bool" where
  "py_le a b = fle (exact a) (exact b)"

text \<open>
  Arithmetic between an \<^verbatim>\<open>int\<close> and a \<^verbatim>\<open>float\<close> first converts the \<^verbatim>\<open>int\<close>
  (correctly rounded), which raises \<^verbatim>\<open>OverflowError\<close> when it is too large.
\<close>

fun as_double :: "number \<Rightarrow> error + double" where
  "as_double (PFloat x) = Inr x"
| "as_double (PInt i) =
     (case round_mag (of_int \<bar>i\<bar>) of
        None \<Rightarrow> Inl (OverflowError ''int too large to convert to float'')
      | Some r \<Rightarrow> Inr (Finite (i < 0) r))"

definition float_op :: "(double \<Rightarrow> double \<Rightarrow> error + double) \<Rightarrow> number \<Rightarrow> number \<Rightarrow> error + number" where
  "float_op f a b =
     (case as_double a of
        Inl e \<Rightarrow> Inl e
      | Inr x \<Rightarrow> (case as_double b of
                   Inl e \<Rightarrow> Inl e
                 | Inr y \<Rightarrow> (case f x y of Inl e \<Rightarrow> Inl e | Inr z \<Rightarrow> Inr (PFloat z))))"

fun py_neg :: "number \<Rightarrow> number" where
  "py_neg (PInt i) = PInt (- i)"
| "py_neg (PFloat x) = PFloat (fneg x)"

fun py_abs :: "number \<Rightarrow> number" where
  "py_abs (PInt i) = PInt \<bar>i\<bar>"
| "py_abs (PFloat x) = PFloat (fabs x)"

fun py_add :: "number \<Rightarrow> number \<Rightarrow> error + number" where
  "py_add (PInt i) (PInt j) = Inr (PInt (i + j))"
| "py_add a b = float_op (\<lambda>x y. Inr (fadd x y)) a b"

fun py_sub :: "number \<Rightarrow> number \<Rightarrow> error + number" where
  "py_sub (PInt i) (PInt j) = Inr (PInt (i - j))"
| "py_sub a b = float_op (\<lambda>x y. Inr (fsub x y)) a b"

fun py_mul :: "number \<Rightarrow> number \<Rightarrow> error + number" where
  "py_mul (PInt i) (PInt j) = Inr (PInt (i * j))"
| "py_mul a b = float_op (\<lambda>x y. Inr (fmul x y)) a b"

text \<open>
  True division. On two \<^verbatim>\<open>int\<close>s the exact quotient is rounded once; its sign is
  negative when exactly one operand is negative, also for a zero quotient.
\<close>

definition float_div :: "double \<Rightarrow> double \<Rightarrow> error + double" where
  "float_div x y =
     (if feq y (Finite False 0) then Inl (ZeroDivisionError ''float division by zero'')
      else Inr (fdiv x y))"

fun py_truediv :: "number \<Rightarrow> number \<Rightarrow> error + number" where
  "py_truediv (PInt i) (PInt j) =
     (if j = 0 then Inl (ZeroDivisionError ''division by zero'')
      else case round_mag (of_int \<bar>i\<bar> / of_int \<bar>j\<bar>) of
             None \<Rightarrow> Inl (OverflowError ''integer division result too large for a float'')
           | Some r \<Rightarrow> Inr (PFloat (Finite ((i < 0) \<noteq> (j < 0)) r)))"
| "py_truediv a b = float_op float_div a b"

text \<open>
  The remainder. On \<^verbatim>\<open>int\<close>s it is the floored remainder, which is HOL's \<open>mod\<close>.
  On \<^verbatim>\<open>float\<close>s CPython takes the C library's exact \<^verbatim>\<open>fmod\<close>, whose result has the
  sign of the dividend, and then adds the divisor when the signs of remainder and
  divisor differ; a zero remainder gets the sign of the divisor.
\<close>

fun fmod :: "double \<Rightarrow> double \<Rightarrow> double" where
  "fmod NaN y = NaN"
| "fmod (Finite s m) NaN = NaN"
| "fmod (Infinity s) NaN = NaN"
| "fmod (Infinity s) (Infinity t) = NaN"
| "fmod (Infinity s) (Finite t n) = NaN"
| "fmod (Finite s m) (Infinity t) = Finite s m"
| "fmod (Finite s m) (Finite t n) =
     (if n = 0 then NaN else Finite s (m - n * of_int \<lfloor>m / n\<rfloor>))"

fun sign_bit :: "double \<Rightarrow> bool" where
  "sign_bit (Finite s m) = s"
| "sign_bit (Infinity s) = s"
| "sign_bit NaN = False"

definition float_rem :: "double \<Rightarrow> double \<Rightarrow> error + double" where
  "float_rem vx wx =
     (if feq wx (Finite False 0) then Inl (ZeroDivisionError ''float modulo by zero'')
      else let md = fmod vx wx
           in if \<not> feq md (Finite False 0)
              then (if fless wx (Finite False 0) \<noteq> fless md (Finite False 0)
                    then Inr (fadd md wx) else Inr md)
              else Inr (Finite (sign_bit wx) 0))"

fun py_mod :: "number \<Rightarrow> number \<Rightarrow> error + number" where
  "py_mod (PInt i) (PInt j) =
     (if j = 0 then Inl (ZeroDivisionError ''integer modulo by zero'')
      else Inr (PInt (i mod j)))"
| "py_mod a b = float_op float_rem a b"

subsection \<open>The \<^verbatim>\<open>math\<close> module\<close>

text \<open>
  \<^verbatim>\<open>math.sqrt\<close> converts its argument to a double and takes the correctly rounded
  square root; it raises \<^verbatim>\<open>ValueError\<close> on a negative argument (\<^verbatim>\<open>-0.0\<close> is not
  negative).
\<close>

fun sqrt_impl :: "double \<Rightarrow> error + double" where
  "sqrt_impl NaN = Inr NaN"
| "sqrt_impl (Infinity s) =
     (if s then Inl (ValueError ''math domain error'') else Inr (Infinity False))"
| "sqrt_impl (Finite s m) =
     (if m = 0 then Inr (Finite s 0)
      else if s then Inl (ValueError ''math domain error'')
      else Inr (round_sm False (sqrt m)))"

definition math_sqrt :: "number \<Rightarrow> error + number" where
  "math_sqrt a =
     (case as_double a of
        Inl e \<Rightarrow> Inl e
      | Inr x \<Rightarrow> (case sqrt_impl x of Inl e \<Rightarrow> Inl e | Inr z \<Rightarrow> Inr (PFloat z)))"

definition is_integral :: "real \<Rightarrow> bool" where
  "is_integral m = (of_int \<lfloor>m\<rfloor> = m)"

definition is_odd_integral :: "real \<Rightarrow> bool" where
  "is_odd_integral m = (is_integral m \<and> odd \<lfloor>m\<rfloor>)"

text \<open>
  The C library's \<^verbatim>\<open>pow\<close> on finite arguments \<open>x = Finite s m\<close> and
  \<open>y = Finite t n\<close>, with the special values of C99 Annex F: \<open>pow(x, \<plusminus>0) = 1\<close>; a zero
  base gives an infinity for a negative exponent and a zero for a positive one, negative
  only for a negative zero and an odd integer exponent; a negative base with an exponent
  that is not an integer gives \<open>NaN\<close>. Everywhere else the result is taken as the
  correctly rounded power, which overflows to an infinity and underflows to zero.
\<close>

definition c_pow :: "bool \<Rightarrow> real \<Rightarrow> bool \<Rightarrow> real \<Rightarrow> double" where
  "c_pow s m t n =
     (if n = 0 then Finite False 1
      else if m = 0 then
        (if t then Infinity (s \<and> is_odd_integral n) else Finite (s \<and> is_odd_integral n) 0)
      else if s \<and> \<not> is_integral n then NaN
      else round_sm (s \<and> is_odd_integral n) (m powr signed t n))"

text \<open>
  \<^verbatim>\<open>math.pow\<close> converts both arguments to doubles. With an argument that is not
  finite it computes the IEEE special value itself and never raises. With finite
  arguments it calls \<^verbatim>\<open>pow\<close> and raises \<^verbatim>\<open>ValueError\<close> for a \<open>NaN\<close> result, and for
  an infinite result \<^verbatim>\<open>ValueError\<close> when the base is zero and \<^verbatim>\<open>OverflowError\<close>
  otherwise.
\<close>

fun pow_impl :: "double \<Rightarrow> double \<Rightarrow> error + double" where
  "pow_impl NaN y = Inr (if feq y (Finite False 0) then Finite False 1 else NaN)"
| "pow_impl (Finite s m) NaN =
     Inr (if feq (Finite s m) (Finite False 1) then Finite False 1 else NaN)"
| "pow_impl (Infinity s) NaN = Inr NaN"
| "pow_impl (Infinity s) (Finite t n) =
     Inr (if n = 0 then Finite False 1
          else if \<not> t then (if is_odd_integral n then Infinity s else Infinity False)
          else (if is_odd_integral n then Finite s 0 else Finite False 0))"
| "pow_impl (Infinity s) (Infinity t) =
     Inr (if \<not> t then Infinity False else Finite False 0)"
| "pow_impl (Finite s m) (Infinity t) =
     Inr (if m = 1 then Finite False 1
          else if \<not> t \<and> 1 < m then Infinity False
          else if t \<and> m < 1 then Infinity False
          else Finite False 0)"
| "pow_impl (Finite s m) (Finite t n) =
     (case c_pow s m t n of
        NaN \<Rightarrow> Inl (ValueError ''math domain error'')
      | Infinity u \<Rightarrow>
          if m = 0 then Inl (ValueError ''math domain error'')
          else Inl (OverflowError ''math range error'')
      | Finite u r \<Rightarrow> Inr (Finite u r))"

definition math_pow :: "number \<Rightarrow> number \<Rightarrow> error + number" where
  "math_pow a b = float_op pow_impl a b"

section \<open>The calculator's operations\<close>

definition add :: "number \<Rightarrow> number \<Rightarrow> error + number" where
  "add a b = py_add a b"

definition subtract :: "number \<Rightarrow> number \<Rightarrow> error + number" where
  "subtract a b = py_sub a b"

definition multiply :: "number \<Rightarrow> number \<Rightarrow> error + number" where
  "multiply a b = py_mul a b"

definition divide_tool :: "number \<Rightarrow> number \<Rightarrow> error + number" where
  "divide_tool a b =
     (if py_eq b (PInt 0) then Inl (ValueError ''Cannot divide by zero'')
      else py_truediv a b)"

definition power_tool :: "number \<Rightarrow> number \<Rightarrow> error + number" where
  "power_tool base exponent = math_pow base exponent"

definition modulo_tool :: "number \<Rightarrow> number \<Rightarrow> error + number" where
  "modulo_tool a b =
     (if py_eq b (PInt 0) then Inl (ValueError ''Cannot perform modulo with zero divisor'')
      else py_mod a b)"

definition square_root :: "number \<Rightarrow> error + number" where
  "square_root number =
     (if py_lt number (PInt 0)
      then Inl (ValueError ''Cannot calculate square root of a negative number'')
      else math_sqrt number)"

definition absolute :: "number \<Rightarrow> error + number" where
  "absolute number = Inr (py_abs number)"

definition percentage :: "number \<Rightarrow> number \<Rightarrow> error + number" where
  "percentage val percent =
     (case py_mul val percent of
        Inl e \<Rightarrow> Inl e
      | Inr p \<Rightarrow> py_truediv p (PInt 100))"

text \<open>
  A number is zero when it is the \<^verbatim>\<open>int\<close> \<open>0\<close> or one of the two floating-point zeros.
\<close>

fun is_zero :: "number \<Rightarrow> bool" where
  "is_zero (PInt i) = (i = 0)"
| "is_zero (PFloat (Finite s m)) = (m = 0)"
| "is_zero (PFloat (Infinity s)) = False"
| "is_zero (PFloat NaN) = False"

text \<open>
  An \<^verbatim>\<open>int\<close> is too large for a float when its magnitude rounds to \<open>2\<^sup>1\<^sup>0\<^sup>2\<^sup>4\<close> or more;
  these are the \<^verbatim>\<open>int\<close>s whose conversion raises \<^verbatim>\<open>OverflowError\<close>.
\<close>

fun is_int :: "number \<Rightarrow> bool" where
  "is_int (PInt i) = True"
| "is_int (PFloat x) = False"

fun int_too_large :: "number \<Rightarrow> bool" where
  "int_too_large (PInt i) = (round_mag (of_int \<bar>i\<bar>) = None)"
| "int_too_large (PFloat x) = False"


text \<open>
  The real number a finite double or an \<^verbatim>\<open>int\<close> stands for, used to state error
  bounds; an infinity and \<open>NaN\<close> stand for no real number and are given \<open>0\<close>.
\<close>

fun dval :: "double \<Rightarrow> real" where
  "dval (Finite s m) = signed s m"
| "dval (Infinity s) = 0"
| "dval NaN = 0"

fun val :: "number \<Rightarrow> real" where
  "val (PInt i) = of_int i"
| "val (PFloat x) = dval x"

section \<open>Properties of rounding\<close>

text \<open>
  Rounding to the nearest integer is off by at most one half; the binary exponent brackets
  its argument; so rounding to a double is off by at most half a unit in the last place,
  which for a value in the normal range is a relative error of at most \<open>2\<^sup>-\<^sup>5\<^sup>3\<close>.
\<close>

lemma round_half_even_error: "\<bar>of_int (round_half_even y) - y\<bar> \<le> 1/2"
  unfolding round_half_even_def Let_def by (auto; linarith)

lemma round_half_even_nonneg: "0 \<le> y \<Longrightarrow> 0 \<le> round_half_even y"
  unfolding round_half_even_def Let_def by auto

lemma ilog2_ge_one:
  assumes "1 \<le> x"
  shows "0 \<le> ilog2 x" and "2 powi (ilog2 x) \<le> x" and "x < 2 powi (ilog2 x + 1)"
proof -
  let ?n = "\<lfloor>x\<rfloor>"
  from assms have n: "0 < ?n" by simp
  from bitlen_bounds [OF n]
  have lo: "2 ^ nat (bitlen ?n - 1) \<le> ?n" and hi: "?n < 2 ^ nat (bitlen ?n)" by auto
  have b1: "1 \<le> bitlen ?n"
    using n bitlen_eq_zero_iff [of ?n] bitlen_nonneg [of ?n] by linarith
  have e: "ilog2 x = bitlen ?n - 1" using assms by (simp add: ilog2_def)
  from b1 e show "0 \<le> ilog2 x" by simp
  have "2 powi (ilog2 x) = (2::real) ^ nat (bitlen ?n - 1)"
    using b1 e by (simp add: power_int_nonneg_exp)
  also have "\<dots> = of_int (2 ^ nat (bitlen ?n - 1))" by simp
  also have "\<dots> \<le> of_int ?n" using lo by (simp only: of_int_le_iff)
  also have "\<dots> \<le> x" by simp
  finally show "2 powi (ilog2 x) \<le> x" .
  have "?n + 1 \<le> 2 ^ nat (bitlen ?n)" using hi by simp
  then have "(of_int (?n + 1) :: real) \<le> of_int (2 ^ nat (bitlen ?n))"
    by (simp only: of_int_le_iff)
  then have A: "real_of_int ?n + 1 \<le> 2 ^ nat (bitlen ?n)" by simp
  have B: "x < real_of_int ?n + 1" by linarith
  from A B have "x < (2::real) ^ nat (bitlen ?n)" by linarith
  moreover have "2 powi (ilog2 x + 1) = (2::real) ^ nat (bitlen ?n)"
    using b1 e by (simp add: power_int_nonneg_exp)
  ultimately show "x < 2 powi (ilog2 x + 1)" by simp
qed

lemma ilog2_lt_one:
  assumes "0 < x" "x < 1"
  shows "ilog2 x < 0" and "2 powi (ilog2 x) \<le> x" and "x < 2 powi (ilog2 x + 1)"
proof -
  let ?k = "\<lceil>1 / x\<rceil> - 1"
  let ?b = "bitlen ?k"
  from assms have inv: "1 < 1 / x" by simp
  then have k: "0 < ?k" by linarith
  have klt: "of_int ?k < 1 / x" by linarith
  have kge: "1 / x \<le> of_int ?k + 1" by linarith
  from bitlen_bounds [OF k]
  have lo: "2 ^ nat (?b - 1) \<le> ?k" and hi: "?k < 2 ^ nat ?b" by auto
  have b1: "1 \<le> ?b"
    using k bitlen_eq_zero_iff [of ?k] bitlen_nonneg [of ?k] by linarith
  have e: "ilog2 x = - ?b" using assms by (simp add: ilog2_def)
  from b1 e show "ilog2 x < 0" by simp
  have "?k + 1 \<le> 2 ^ nat ?b" using hi by simp
  then have "(of_int (?k + 1) :: real) \<le> of_int (2 ^ nat ?b)" by (simp only: of_int_le_iff)
  then have "real_of_int ?k + 1 \<le> 2 ^ nat ?b" by simp
  with kge have "1 / x \<le> (2::real) ^ nat ?b" by linarith
  then have "1 / (2::real) ^ nat ?b \<le> x"
    using assms by (simp add: field_simps)
  moreover have "2 powi (ilog2 x) = 1 / (2::real) ^ nat ?b"
    using b1 e by (simp add: power_int_minus_divide power_int_nonneg_exp)
  ultimately show "2 powi (ilog2 x) \<le> x" by simp
  have "(of_int (2 ^ nat (?b - 1)) :: real) \<le> of_int ?k" using lo by (simp only: of_int_le_iff)
  then have "(2::real) ^ nat (?b - 1) \<le> real_of_int ?k" by simp
  with klt have "(2::real) ^ nat (?b - 1) < 1 / x" by linarith
  then have "x < 1 / (2::real) ^ nat (?b - 1)"
    using assms by (simp add: field_simps)
  moreover have "2 powi (ilog2 x + 1) = 1 / (2::real) ^ nat (?b - 1)"
  proof -
    have "ilog2 x + 1 = - (?b - 1)" using e by simp
    then have "2 powi (ilog2 x + 1) = 1 / (2::real) powi (?b - 1)"
      by (simp only: power_int_minus_divide)
    then show ?thesis using b1 by (simp add: power_int_nonneg_exp)
  qed
  ultimately show "x < 2 powi (ilog2 x + 1)" by simp
qed

lemma ilog2_bounds:
  assumes "0 < x"
  shows "2 powi (ilog2 x) \<le> x" and "x < 2 powi (ilog2 x + 1)"
  using assms ilog2_ge_one [of x] ilog2_lt_one [of x] by (cases "1 \<le> x"; simp)+


lemma round_mag_nonneg:
  assumes "0 \<le> x" "round_mag x = Some r"
  shows "0 \<le> r"
proof (cases "x = 0")
  case True
  with assms show ?thesis by (simp add: round_mag_def)
next
  case False
  define u :: real where "u = 2 powi (max (ilog2 x) (- 1022) - 52)"
  have u: "0 < u" by (simp add: u_def)
  from False assms have r: "r = of_int (round_half_even (x / u)) * u"
    by (auto simp: round_mag_def Let_def u_def split: if_splits)
  from assms u have "0 \<le> x / u" by simp
  then have "0 \<le> round_half_even (x / u)" by (rule round_half_even_nonneg)
  with u r show ?thesis by simp
qed

lemma round_mag_error:
  assumes "0 < x" "round_mag x = Some r"
  shows "\<bar>r - x\<bar> \<le> 2 powi (max (ilog2 x) (- 1022) - 53)"
proof -
  define e where "e = max (ilog2 x) (- 1022)"
  define u :: real where "u = 2 powi (e - 52)"
  have u: "0 < u" by (simp add: u_def)
  from assms have r: "r = of_int (round_half_even (x / u)) * u"
    by (auto simp: round_mag_def Let_def u_def e_def split: if_splits)
  have "\<bar>of_int (round_half_even (x / u)) - x / u\<bar> \<le> 1/2"
    by (rule round_half_even_error)
  then have "\<bar>of_int (round_half_even (x / u)) - x / u\<bar> * u \<le> 1/2 * u"
    using u by (intro mult_right_mono) simp_all
  moreover have "\<bar>of_int (round_half_even (x / u)) - x / u\<bar> * u = \<bar>r - x\<bar>"
  proof -
    have "\<bar>of_int (round_half_even (x / u)) - x / u\<bar> * u
        = \<bar>(of_int (round_half_even (x / u)) - x / u) * u\<bar>"
      using u by (simp add: abs_mult)
    also have "(of_int (round_half_even (x / u)) - x / u) * u = r - x"
      using u by (simp add: r field_simps)
    finally show ?thesis .
  qed
  moreover have "1/2 * u = 2 powi (e - 53)"
  proof -
    have "(2::real) powi (e - 53 + 1) = 2 powi (e - 53) * 2 powi 1"
      by (rule power_int_add) simp
    moreover have "e - 53 + 1 = e - 52" by simp
    ultimately show ?thesis by (simp add: u_def)
  qed
  ultimately show ?thesis by (simp add: e_def)
qed

lemma round_mag_rel_error:
  assumes "2 powi (- 1022) \<le> x" "round_mag x = Some r"
  shows "\<bar>r - x\<bar> \<le> x * 2 powi (- 53)"
proof -
  have x: "0 < x"
    using assms(1) zero_less_power_int [of "2::real" "- 1022"] by linarith
  have e: "- 1022 \<le> ilog2 x"
  proof (rule ccontr)
    assume "\<not> - 1022 \<le> ilog2 x"
    then have "ilog2 x + 1 \<le> - 1022" by simp
    then have "(2::real) powi (ilog2 x + 1) \<le> 2 powi (- 1022)"
      by (intro power_int_increasing) simp_all
    with ilog2_bounds(2) [OF x] assms(1) show False by linarith
  qed
  then have "max (ilog2 x) (- 1022) = ilog2 x" by simp
  with round_mag_error [OF x assms(2)]
  have "\<bar>r - x\<bar> \<le> 2 powi (ilog2 x - 53)" by simp
  also have "(2::real) powi (ilog2 x - 53) = 2 powi (ilog2 x) * 2 powi (- 53)"
    using power_int_add [of "2::real" "ilog2 x" "- 53"] by simp
  also have "\<dots> \<le> x * 2 powi (- 53)"
    using ilog2_bounds(1) [OF x] by (intro mult_right_mono) simp_all
  finally show ?thesis .
qed

lemma round_mag_pos:
  assumes "2 powi (- 1022) \<le> x" "round_mag x = Some r"
  shows "0 < r"
proof -
  have x: "0 < x"
    using assms(1) zero_less_power_int [of "2::real" "- 1022"] by linarith
  have "(2::real) powi (- 53) < 1"
    by (simp add: power_int_minus_divide)
  then have "x * 2 powi (- 53) < x * 1"
    using x by (intro mult_strict_left_mono) simp_all
  with round_mag_rel_error [OF assms] show ?thesis by linarith
qed

lemma round_mag_zero: "round_mag 0 = Some 0"
  by (simp add: round_mag_def)

lemma round_mag_int_pos:
  assumes "i \<noteq> 0" "round_mag (of_int \<bar>i\<bar>) = Some r"
  shows "0 < r"
proof -
  have "(2::real) powi (- 1022) \<le> 2 powi 0"
    by (intro power_int_increasing) simp_all
  moreover have "1 \<le> real_of_int \<bar>i\<bar>"
  proof -
    from assms(1) have "1 \<le> \<bar>i\<bar>" by arith
    then show ?thesis by (simp only: of_int_1_le_iff)
  qed
  ultimately have "2 powi (- 1022) \<le> real_of_int \<bar>i\<bar>" by simp
  then show ?thesis using assms(2) by (rule round_mag_pos)
qed

text \<open>A magnitude of \<open>2\<^sup>1\<^sup>0\<^sup>2\<^sup>4\<close> or more overflows.\<close>

lemma round_half_even_ge_floor: "\<lfloor>y\<rfloor> \<le> round_half_even y"
  by (simp add: round_half_even_def Let_def)

lemma round_mag_overflow:
  assumes "2 powi 1024 \<le> x"
  shows "round_mag x = None"
proof -
  have x: "0 < x"
    using assms zero_less_power_int [of "2::real" 1024] by linarith
  define e where "e = ilog2 x"
  have e: "1024 \<le> e"
  proof (rule ccontr)
    assume "\<not> 1024 \<le> e"
    then have "e + 1 \<le> 1024" by simp
    then have "(2::real) powi (e + 1) \<le> 2 powi 1024"
      by (intro power_int_increasing) simp_all
    with ilog2_bounds(2) [OF x] assms show False by (simp add: e_def)
  qed
  define u :: real where "u = 2 powi (e - 52)"
  define p :: real where "p = 2 powi 52"
  have u: "0 < u" by (simp add: u_def)
  have pi: "p = real_of_int (2 ^ 52)" by (simp add: p_def)
  have eu: "2 powi e = p * u"
    using power_int_add [of "2::real" 52 "e - 52"] by (simp add: u_def p_def)
  have "p * u \<le> x" using ilog2_bounds(1) [OF x] by (simp only: e_def [symmetric] eu)
  then have "p \<le> x / u" using u by (simp add: field_simps)
  then have "real_of_int (2 ^ 52) \<le> x / u" by (simp only: pi)
  then have "2 ^ 52 \<le> \<lfloor>x / u\<rfloor>" by (simp only: le_floor_iff)
  with round_half_even_ge_floor [of "x / u"] have "2 ^ 52 \<le> round_half_even (x / u)"
    by linarith
  then have "real_of_int (2 ^ 52) \<le> of_int (round_half_even (x / u))"
    by (simp only: of_int_le_iff)
  then have "p \<le> of_int (round_half_even (x / u))" by (simp only: pi)
  then have "p * u \<le> of_int (round_half_even (x / u)) * u"
    using u by (intro mult_right_mono) simp_all
  moreover have "(2::real) powi 1024 \<le> 2 powi e"
    using e by (intro power_int_increasing) simp_all
  ultimately have "2 powi 1024 \<le> of_int (round_half_even (x / u)) * u"
    by (simp only: eu)
  moreover have "max (ilog2 x) (- 1022) = e" using e by (simp add: e_def)
  ultimately show ?thesis using x by (simp add: round_mag_def Let_def u_def del: power_int_numeral)
qed

lemma ten_pow_400_overflows: "(2::real) powi 1024 \<le> 10 ^ 400"
  by simp

lemma int_too_large_ten_pow_400: "int_too_large (PInt (10 ^ 400))"
proof -
  have "round_mag (10 ^ 400) = None" using ten_pow_400_overflows by (rule round_mag_overflow)
  then show ?thesis by (simp del: power_numeral)
qed

section \<open>Failures of the interpreter's operators\<close>

lemma py_eq_zero: "py_eq b (PInt 0) = is_zero b"
  by (cases b rule: is_zero.cases) (simp_all add: py_eq_def signed_def)

lemma feq_zero: "feq y (Finite False 0) = is_zero (PFloat y)"
  by (cases "PFloat y" rule: is_zero.cases) (simp_all add: signed_def)

lemma as_double_error:
  "as_double a = Inl e \<Longrightarrow> e = OverflowError ''int too large to convert to float''"
  by (cases a) (auto split: option.splits)

lemma as_double_is_zero:
  assumes "as_double b = Inr y"
  shows "is_zero (PFloat y) = is_zero b"
proof (cases b)
  case (PInt i)
  show ?thesis
  proof (cases "i = 0")
    case True
    with PInt assms show ?thesis by (auto simp: round_mag_zero)
  next
    case False
    with PInt assms show ?thesis
      by (auto split: option.splits dest: round_mag_int_pos)
  qed
next
  case (PFloat x)
  with assms show ?thesis by simp
qed

lemma float_op_error:
  assumes "float_op f a b = Inl e"
  shows "e = OverflowError ''int too large to convert to float''
         \<or> (\<exists>x y. as_double a = Inr x \<and> as_double b = Inr y \<and> f x y = Inl e)"
  using assms
  by (auto simp: float_op_def split: sum.splits dest: as_double_error)

lemma as_double_too_large:
  "int_too_large a = (as_double a = Inl (OverflowError ''int too large to convert to float''))"
  by (cases a) (auto split: option.splits)

lemma as_double_fits: "as_double a = Inr x \<Longrightarrow> \<not> int_too_large a"
  by (simp add: as_double_too_large)

lemma as_double_total: "\<not> int_too_large a \<Longrightarrow> \<exists>x. as_double a = Inr x"
  by (cases a) (auto split: option.splits)

lemma float_op_too_large:
  assumes "int_too_large a \<or> int_too_large b"
  shows "float_op f a b = Inl (OverflowError ''int too large to convert to float'')"
  using assms
  by (auto simp: float_op_def as_double_too_large split: sum.splits dest: as_double_error)

lemma float_op_value:
  assumes "as_double a = Inr x" "as_double b = Inr y"
  shows "float_op f a b = (case f x y of Inl e \<Rightarrow> Inl e | Inr z \<Rightarrow> Inr (PFloat z))"
  using assms by (simp add: float_op_def)

lemma both_int: "(\<exists>i j. a = PInt i \<and> b = PInt j) = (is_int a \<and> is_int b)"
  by (cases a; cases b) simp_all

lemma py_add_float:
  assumes "\<not> (\<exists>i j. a = PInt i \<and> b = PInt j)"
  shows "py_add a b = float_op (\<lambda>x y. Inr (fadd x y)) a b"
  using assms by (cases a; cases b) simp_all

lemma py_sub_float:
  assumes "\<not> (\<exists>i j. a = PInt i \<and> b = PInt j)"
  shows "py_sub a b = float_op (\<lambda>x y. Inr (fsub x y)) a b"
  using assms by (cases a; cases b) simp_all

lemma py_mul_float:
  assumes "\<not> (\<exists>i j. a = PInt i \<and> b = PInt j)"
  shows "py_mul a b = float_op (\<lambda>x y. Inr (fmul x y)) a b"
  using assms by (cases a; cases b) simp_all

lemma py_mod_error:
  assumes "py_mod a b = Inl e"
  shows "e = OverflowError ''int too large to convert to float'' \<or> (\<exists>msg. e = ZeroDivisionError msg)"
  using assms
  by (cases "(a, b)" rule: py_mod.cases)
     (auto dest!: float_op_error simp: float_rem_def Let_def split: if_splits)

lemma float_op_zero_division:
  assumes "float_op f a b = Inl (ZeroDivisionError msg)"
    and "\<And>x y e. f x y = Inl e \<Longrightarrow> feq y (Finite False 0)"
  shows "is_zero b"
proof -
  from float_op_error [OF assms(1)]
  obtain x y where "as_double b = Inr y" "f x y = Inl (ZeroDivisionError msg)"
    by auto
  with assms(2) [of x y] show ?thesis
    by (simp add: feq_zero as_double_is_zero)
qed

lemma py_mod_zero_division:
  assumes "py_mod a b = Inl (ZeroDivisionError msg)"
  shows "is_zero b"
proof (cases "\<exists>i j. a = PInt i \<and> b = PInt j")
  case True
  with assms show ?thesis by (auto split: if_splits)
next
  case False
  then have "py_mod a b = float_op float_rem a b"
    by (cases a; cases b) simp_all
  with assms have "float_op float_rem a b = Inl (ZeroDivisionError msg)" by simp
  then show ?thesis
    by (rule float_op_zero_division) (simp add: float_rem_def Let_def split: if_splits)
qed

section \<open>The zero-divisor guard of modulo\<close>

text \<open>
  C4. \<^verbatim>\<open>modulo(a, b)\<close> fails with the division-by-zero error if and only if \<open>b\<close> is
  zero, for every number \<open>a\<close>. The division-by-zero error is the \<^verbatim>\<open>ValueError\<close> with the
  message of the source; the theorem also shows that no other \<^verbatim>\<open>ValueError\<close> and no
  \<^verbatim>\<open>ZeroDivisionError\<close> of the interpreter ever leaves \<^verbatim>\<open>modulo\<close>.
\<close>

theorem modulo_fails_iff_zero_divisor:
  "(modulo_tool a b = Inl (ValueError ''Cannot perform modulo with zero divisor'')) = is_zero b
   \<and> (\<exists>msg. modulo_tool a b = Inl (ValueError msg) \<or> modulo_tool a b = Inl (ZeroDivisionError msg))
       = is_zero b"
proof (cases "is_zero b")
  case True
  then show ?thesis
    by (auto simp: modulo_tool_def py_eq_zero)
next
  case False
  then have "modulo_tool a b = py_mod a b"
    by (simp add: modulo_tool_def py_eq_zero)
  with False show ?thesis
    using py_mod_error [of a b] py_mod_zero_division [of a b]
    by auto
qed

theorem modulo_fails_iff_zero_divisor_witness:
  "modulo_tool (PInt 10) (PInt 0) = Inl (ValueError ''Cannot perform modulo with zero divisor'')
   \<and> modulo_tool (PInt 10) (PInt 5) \<noteq> Inl (ValueError ''Cannot perform modulo with zero divisor'')"
  using modulo_fails_iff_zero_divisor [of "PInt 10" "PInt 0"]
        modulo_fails_iff_zero_divisor [of "PInt 10" "PInt 5"]
  by simp

section \<open>Negative zero as a divisor\<close>

text \<open>
  C10. The guards of \<^verbatim>\<open>divide\<close> and \<^verbatim>\<open>modulo\<close> compare numerically, so the divisor
  \<^verbatim>\<open>-0.0\<close> is a zero: for every \<open>a\<close> both operations fail with their division-by-zero
  error, and return neither an infinity nor \<open>NaN\<close>.
\<close>

theorem negative_zero_divisor_fails:
  "divide_tool a (PFloat (Finite True 0)) = Inl (ValueError ''Cannot divide by zero'')
   \<and> modulo_tool a (PFloat (Finite True 0))
       = Inl (ValueError ''Cannot perform modulo with zero divisor'')"
  by (simp add: divide_tool_def modulo_tool_def py_eq_zero)

section \<open>The sign of the remainder\<close>

text \<open>The unfolding rules that evaluate the operations on concrete numbers.\<close>

lemmas ev = round_mag_def ilog2_def round_half_even_def Let_def compute_bitlen round_sm_def
  signed_def py_eq_def py_lt_def py_le_def fle_def float_op_def float_div_def float_rem_def

lemma as_double_sign:
  assumes "as_double b = Inr y" "is_number b" "\<not> is_zero b"
  shows "fless y (Finite False 0) = py_lt b (PInt 0)"
proof (cases b)
  case (PInt j)
  with assms obtain r where r: "round_mag (of_int \<bar>j\<bar>) = Some r" "y = Finite (j < 0) r"
    by (auto split: option.splits)
  from assms(3) PInt have "j \<noteq> 0" by simp
  then have "0 < r" using r(1) by (rule round_mag_int_pos)
  with r(2) PInt \<open>j \<noteq> 0\<close> show ?thesis
    by (auto simp: py_lt_def signed_def)
next
  case (PFloat x)
  with assms show ?thesis by (simp add: py_lt_def)
qed

lemma as_double_nonneg:
  assumes "as_double a = Inr (Finite s m)" "is_number a"
  shows "0 \<le> m"
proof (cases a)
  case (PInt i)
  with assms have "round_mag (of_int \<bar>i\<bar>) = Some m" by (auto split: option.splits)
  then show ?thesis by (rule round_mag_nonneg [rotated]) simp
next
  case (PFloat x)
  with assms show ?thesis by simp
qed

lemma round_sm_sign:
  assumes "0 \<le> v" "round_sm s v = r"
  shows "is_zero (PFloat r) \<or> fless r (Finite False 0) = s"
proof (cases "round_mag v")
  case None
  with assms show ?thesis by (auto simp: round_sm_def)
next
  case (Some q)
  with assms(1) have "0 \<le> q" by (rule round_mag_nonneg)
  with Some assms show ?thesis
    by (auto simp: round_sm_def signed_def split: if_splits)
qed

lemma fmod_remainder:
  assumes "0 \<le> m" "0 < n"
  shows "0 \<le> m - n * of_int \<lfloor>m / n\<rfloor>" and "m - n * of_int \<lfloor>m / n\<rfloor> < n"
proof -
  have "of_int \<lfloor>m / n\<rfloor> \<le> m / n" by simp
  then have "n * of_int \<lfloor>m / n\<rfloor> \<le> n * (m / n)"
    using assms(2) by (intro mult_left_mono) simp_all
  then have "n * of_int \<lfloor>m / n\<rfloor> \<le> m" using assms(2) by simp
  then show "0 \<le> m - n * of_int \<lfloor>m / n\<rfloor>" by simp
  have "m / n < of_int \<lfloor>m / n\<rfloor> + 1" by linarith
  then have "n * (m / n) < n * (of_int \<lfloor>m / n\<rfloor> + 1)"
    using assms(2) by (intro mult_strict_left_mono) simp_all
  then have "m < n * (of_int \<lfloor>m / n\<rfloor> + 1)" using assms(2) by simp
  then show "m - n * of_int \<lfloor>m / n\<rfloor> < n" by (simp add: algebra_simps)
qed

lemma float_rem_sign:
  assumes "float_rem x y = Inr r" "r \<noteq> NaN"
    and "\<And>s m. x = Finite s m \<Longrightarrow> 0 \<le> m"
    and "\<And>t n. y = Finite t n \<Longrightarrow> 0 \<le> n"
  shows "is_zero (PFloat r) \<or> fless r (Finite False 0) = fless y (Finite False 0)"
proof (cases y)
  case NaN
  with assms(1,2) show ?thesis
    by (cases x) (auto simp: float_rem_def Let_def split: if_splits)
next
  case (Infinity t)
  with assms(1,2) show ?thesis
    by (cases x) (auto simp: float_rem_def Let_def signed_def split: if_splits)
next
  case (Finite t n)
  with assms(4) have n0: "0 \<le> n" by simp
  from assms(1) Finite have "n \<noteq> 0"
    by (auto simp: float_rem_def signed_def split: if_splits)
  with n0 have n: "0 < n" by simp
  show ?thesis
  proof (cases x)
    case NaN
    with assms(1,2) Finite show ?thesis
      by (auto simp: float_rem_def Let_def split: if_splits)
  next
    case (Infinity s)
    with assms(1,2) Finite show ?thesis
      by (auto simp: float_rem_def Let_def split: if_splits)
  next
    case (Finite s m)
    with assms(3) have m: "0 \<le> m" by simp
    define q where "q = m - n * of_int \<lfloor>m / n\<rfloor>"
    from fmod_remainder [OF m n] have q: "0 \<le> q" "q < n" by (simp_all add: q_def)
    have md: "fmod x y = Finite s q"
      using Finite \<open>y = Finite t n\<close> n by (simp add: q_def)
    show ?thesis
    proof (cases "q = 0")
      case True
      with assms(1) md \<open>y = Finite t n\<close> n show ?thesis
        by (auto simp: float_rem_def Let_def signed_def split: if_splits)
    next
      case False
      with q have qpos: "0 < q" by simp
      show ?thesis
      proof (cases "s = t")
        case True
        with assms(1) md \<open>y = Finite t n\<close> n qpos show ?thesis
          by (auto simp: float_rem_def Let_def signed_def split: if_splits)
      next
        case False
        with assms(1) md \<open>y = Finite t n\<close> n qpos
        have r: "r = fadd (Finite s q) (Finite t n)"
          by (auto simp: float_rem_def Let_def signed_def split: if_splits)
        define v where "v = signed s q + signed t n"
        from False q qpos n have v: "v \<noteq> 0" "(v < 0) = t" "0 \<le> \<bar>v\<bar>"
          by (auto simp: v_def signed_def)
        from r v have "round_sm t \<bar>v\<bar> = r" by (simp add: v_def Let_def)
        from round_sm_sign [OF v(3) this] \<open>y = Finite t n\<close> n show ?thesis
          by (auto simp: signed_def)
      qed
    qed
  qed
qed


lemma float_op_result:
  assumes "float_op f a b = Inr r"
  shows "\<exists>x y z. as_double a = Inr x \<and> as_double b = Inr y \<and> f x y = Inr z \<and> r = PFloat z"
  using assms by (auto simp: float_op_def split: sum.splits)

lemma py_lt_zero_float: "py_lt (PFloat z) (PInt 0) = fless z (Finite False 0)"
  by (simp add: py_lt_def)

lemma modulo_result_sign:
  assumes "modulo_tool a b = Inr r" "is_number a" "is_number b" "\<not> is_nan r"
  shows "is_zero r \<or> py_lt r (PInt 0) = py_lt b (PInt 0)"
proof -
  from assms(1) have nz: "\<not> is_zero b" and pm: "py_mod a b = Inr r"
    by (auto simp: modulo_tool_def py_eq_zero split: if_splits)
  show ?thesis
  proof (cases "\<exists>i j. a = PInt i \<and> b = PInt j")
    case True
    then obtain i j where ab: "a = PInt i" "b = PInt j" by auto
    with nz pm have j: "j \<noteq> 0" and r: "r = PInt (i mod j)" by auto
    show ?thesis
    proof (cases "0 < j")
      case True
      then have "0 \<le> i mod j" by (rule pos_mod_sign)
      with True r ab show ?thesis by (auto simp: py_lt_def signed_def)
    next
      case False
      with j have "j < 0" by simp
      then have "i mod j \<le> 0" by (rule neg_mod_sign)
      with \<open>j < 0\<close> r ab show ?thesis by (auto simp: py_lt_def signed_def)
    qed
  next
    case False
    then have "py_mod a b = float_op float_rem a b"
      by (cases a; cases b) simp_all
    with pm have "float_op float_rem a b = Inr r" by simp
    from float_op_result [OF this] obtain x y z where
      xyz: "as_double a = Inr x" "as_double b = Inr y" "float_rem x y = Inr z" "r = PFloat z"
      by blast
    from assms(4) xyz(4) have "z \<noteq> NaN" by auto
    with xyz(3) have "is_zero (PFloat z) \<or> fless z (Finite False 0) = fless y (Finite False 0)"
      using as_double_nonneg [OF _ assms(2)] as_double_nonneg [OF _ assms(3)] xyz(1,2)
      by (intro float_rem_sign) auto
    with as_double_sign [OF xyz(2) assms(3) nz] xyz(4) show ?thesis
      by (simp add: py_lt_zero_float)
  qed
qed


lemma py_mod_float:
  assumes "\<not> (\<exists>i j. a = PInt i \<and> b = PInt j)"
  shows "py_mod a b = float_op float_rem a b"
  using assms by (cases a; cases b) simp_all

lemma float_rem_returns:
  assumes "\<not> is_zero (PFloat y)"
  shows "\<exists>z. float_rem x y = Inr z"
  using assms by (simp add: float_rem_def Let_def feq_zero)

lemma float_rem_finite:
  assumes "0 \<le> m" "0 < n" "q = m - n * of_int \<lfloor>m / n\<rfloor>"
  shows "float_rem (Finite s m) (Finite t n)
     = Inr (if q = 0 then Finite t 0
            else if s = t then Finite s q else fadd (Finite s q) (Finite t n))"
proof -
  from fmod_remainder [OF assms(1,2)] assms(3) have q: "0 \<le> q" "q < n" by simp_all
  have md: "fmod (Finite s m) (Finite t n) = Finite s q"
    using assms(2,3) by simp
  have y: "\<not> feq (Finite t n) (Finite False 0)" "fless (Finite t n) (Finite False 0) = t"
    using assms(2) by (simp_all add: signed_def)
  have z: "feq (Finite s q) (Finite False 0) = (q = 0)"
    by (simp add: signed_def)
  have l: "q \<noteq> 0 \<Longrightarrow> fless (Finite s q) (Finite False 0) = s"
    using q(1) by (simp add: signed_def)
  show ?thesis
    unfolding float_rem_def Let_def md
    using y z l by (auto simp del: feq.simps fless.simps fadd.simps)
qed

text \<open>
  C1 (as amended). \<^verbatim>\<open>modulo(a, b)\<close> with \<open>b \<noteq> 0\<close> returns the remainder under Python's
  convention, where the sign follows the divisor, and its outcome is fixed in every case.
  On two \<^verbatim>\<open>int\<close>s it is the remainder \<open>r\<close> of the floored division:
  \<open>a = (a div b) \<times> b + r\<close> with \<open>\<bar>r\<bar> < \<bar>b\<bar>\<close>. Otherwise it is the remainder of the operands as
  doubles, and it fails, with \<^verbatim>\<open>OverflowError\<close>, when an \<^verbatim>\<open>int\<close> operand is too large to
  convert. For finite doubles of magnitudes \<open>m\<close> and \<open>n\<close> the remainder is built from the
  exact \<open>q = m - n \<times> \<lfloor>m / n\<rfloor>\<close>, \<open>0 \<le> q < n\<close>: a zero with the sign of the divisor when
  \<open>q = 0\<close>, \<open>q\<close> with the sign of the dividend when the two signs agree, and otherwise the
  IEEE sum of that and the divisor. Whenever \<^verbatim>\<open>modulo\<close> returns a number that is not
  \<open>NaN\<close>, the result is zero or has the same sign as the divisor \<open>b\<close>.
\<close>

theorem modulo_sign_of_divisor:
  "(modulo_tool a b = Inr r \<and> is_number a \<and> is_number b \<and> \<not> is_nan r
      \<longrightarrow> is_zero r \<or> py_lt r (PInt 0) = py_lt b (PInt 0))
   \<and> (j \<noteq> 0
      \<longrightarrow> modulo_tool (PInt i) (PInt j) = Inr (PInt (i mod j))
        \<and> i = (i div j) * j + i mod j \<and> \<bar>i mod j\<bar> < \<bar>j\<bar>)
   \<and> (\<not> is_zero b \<and> \<not> (is_int a \<and> is_int b) \<and> (int_too_large a \<or> int_too_large b)
      \<longrightarrow> modulo_tool a b = Inl (OverflowError ''int too large to convert to float''))
   \<and> (\<not> is_zero b \<and> \<not> (is_int a \<and> is_int b) \<and> as_double a = Inr x \<and> as_double b = Inr y
      \<longrightarrow> modulo_tool a b = (case float_rem x y of Inl e \<Rightarrow> Inl e | Inr z \<Rightarrow> Inr (PFloat z))
        \<and> (\<exists>z. float_rem x y = Inr z))
   \<and> (0 \<le> m \<and> 0 < n \<and> q = m - n * of_int \<lfloor>m / n\<rfloor>
      \<longrightarrow> 0 \<le> q \<and> q < n
        \<and> modulo_tool (PFloat (Finite s m)) (PFloat (Finite t n))
          = Inr (PFloat (if q = 0 then Finite t 0
                         else if s = t then Finite s q else fadd (Finite s q) (Finite t n))))"
proof (intro conjI impI)
  show "is_zero r \<or> py_lt r (PInt 0) = py_lt b (PInt 0)"
    if "modulo_tool a b = Inr r \<and> is_number a \<and> is_number b \<and> \<not> is_nan r"
    using that modulo_result_sign [of a b r] by blast
  show "modulo_tool (PInt i) (PInt j) = Inr (PInt (i mod j))" if "j \<noteq> 0"
    using that by (simp add: modulo_tool_def py_eq_zero)
  show "i = (i div j) * j + i mod j" by simp
  show "\<bar>i mod j\<bar> < \<bar>j\<bar>" if "j \<noteq> 0"
    using that by (rule abs_mod_less)
  show "modulo_tool a b = Inl (OverflowError ''int too large to convert to float'')"
    if h: "\<not> is_zero b \<and> \<not> (is_int a \<and> is_int b) \<and> (int_too_large a \<or> int_too_large b)"
  proof -
    from h have "\<not> (\<exists>i j. a = PInt i \<and> b = PInt j)" unfolding both_int by blast
    then have "py_mod a b = float_op float_rem a b" by (rule py_mod_float)
    moreover from h have "int_too_large a \<or> int_too_large b" by blast
    ultimately show ?thesis
      using h float_op_too_large [of a b float_rem] by (simp add: modulo_tool_def py_eq_zero)
  qed
  show "modulo_tool a b = (case float_rem x y of Inl e \<Rightarrow> Inl e | Inr z \<Rightarrow> Inr (PFloat z))"
    if h: "\<not> is_zero b \<and> \<not> (is_int a \<and> is_int b) \<and> as_double a = Inr x \<and> as_double b = Inr y"
  proof -
    from h have "\<not> (\<exists>i j. a = PInt i \<and> b = PInt j)" unfolding both_int by blast
    then have "py_mod a b = float_op float_rem a b" by (rule py_mod_float)
    moreover from h have "as_double a = Inr x" "as_double b = Inr y" by blast+
    ultimately show ?thesis
      using h float_op_value [of a x b y float_rem] by (simp add: modulo_tool_def py_eq_zero)
  qed
  show "\<exists>z. float_rem x y = Inr z"
    if h: "\<not> is_zero b \<and> \<not> (is_int a \<and> is_int b) \<and> as_double a = Inr x \<and> as_double b = Inr y"
  proof -
    from h have "as_double b = Inr y" "\<not> is_zero b" by blast+
    then have "\<not> is_zero (PFloat y)" by (simp add: as_double_is_zero)
    then show ?thesis by (rule float_rem_returns)
  qed
  show "0 \<le> q" if "0 \<le> m \<and> 0 < n \<and> q = m - n * of_int \<lfloor>m / n\<rfloor>"
    using that fmod_remainder(1) [of m n] by blast
  show "q < n" if "0 \<le> m \<and> 0 < n \<and> q = m - n * of_int \<lfloor>m / n\<rfloor>"
    using that fmod_remainder(2) [of m n] by blast
  show "modulo_tool (PFloat (Finite s m)) (PFloat (Finite t n))
          = Inr (PFloat (if q = 0 then Finite t 0
                         else if s = t then Finite s q else fadd (Finite s q) (Finite t n)))"
    if h: "0 \<le> m \<and> 0 < n \<and> q = m - n * of_int \<lfloor>m / n\<rfloor>"
  proof -
    from h have "float_rem (Finite s m) (Finite t n)
     = Inr (if q = 0 then Finite t 0
            else if s = t then Finite s q else fadd (Finite s q) (Finite t n))"
      by (intro float_rem_finite) blast+
    moreover from h have "\<not> is_zero (PFloat (Finite t n))" by simp
    ultimately show ?thesis
      by (simp add: modulo_tool_def py_eq_zero float_op_def del: fadd.simps)
  qed
qed

theorem modulo_sign_of_divisor_witness:
  "modulo_tool (PFloat (Finite True 7)) (PFloat (Finite False 3)) = Inr (PFloat (Finite False 2))
   \<and> py_lt (PFloat (Finite False 2)) (PInt 0) = py_lt (PFloat (Finite False 3)) (PInt 0)
   \<and> modulo_tool (PInt 7) (PInt (- 3)) = Inr (PInt (- 2))
   \<and> modulo_tool (PInt (10 ^ 400)) (PFloat (Finite False 3))
       = Inl (OverflowError ''int too large to convert to float'')
   \<and> modulo_tool (PInt 7) (PFloat (Finite False 2)) = Inr (PFloat (Finite False 1))"
proof -
  note A = modulo_sign_of_divisor [where a = "PFloat (Finite True 7)"
      and b = "PFloat (Finite False 3)" and r = "PFloat (Finite False 2)"
      and i = 7 and j = "- 3" and s = True and m = 7 and t = False and n = 3 and q = 1]
  note B = modulo_sign_of_divisor [where a = "PInt (10 ^ 400)" and b = "PFloat (Finite False 3)"]
  note C = modulo_sign_of_divisor [where a = "PInt 7" and b = "PFloat (Finite False 2)"
      and x = "Finite False 7" and y = "Finite False 2"]
  have f: "fadd (Finite True 1) (Finite False 3) = Finite False 2" by (simp add: ev)
  have 1: "modulo_tool (PFloat (Finite True 7)) (PFloat (Finite False 3))
      = Inr (PFloat (Finite False 2))"
    using A [THEN conjunct2, THEN conjunct2, THEN conjunct2, THEN conjunct2] f
    by (simp del: fadd.simps)
  have a: "is_number (PFloat (Finite True 7))" by (simp add: ev)
  have b: "is_number (PFloat (Finite False 3))" by (simp add: ev)
  have 2: "py_lt (PFloat (Finite False 2)) (PInt 0) = py_lt (PFloat (Finite False 3)) (PInt 0)"
    using A [THEN conjunct1] 1 a b by simp
  have 3: "modulo_tool (PInt 7) (PInt (- 3)) = Inr (PInt (- 2))"
    using A [THEN conjunct2, THEN conjunct1] by simp
  have 4: "modulo_tool (PInt (10 ^ 400)) (PFloat (Finite False 3))
       = Inl (OverflowError ''int too large to convert to float'')"
    using B [THEN conjunct2, THEN conjunct2, THEN conjunct1] int_too_large_ten_pow_400
    by (simp del: power_numeral)
  have c: "as_double (PInt 7) = Inr (Finite False 7)" by (simp add: ev)
  have g: "float_rem (Finite False 7) (Finite False 2) = Inr (Finite False 1)"
    by (simp add: ev)
  have 5: "modulo_tool (PInt 7) (PFloat (Finite False 2)) = Inr (PFloat (Finite False 1))"
    using C [THEN conjunct2, THEN conjunct2, THEN conjunct2, THEN conjunct1] c g
    by (simp del: as_double.simps(2))
  from 1 2 3 4 5 show ?thesis by blast
qed

text \<open>
  The claim as stated, with the sign of the dividend, fails: \<^verbatim>\<open>modulo(-7, 3)\<close> is \<open>2\<close>,
  which is not zero and is positive although the dividend is negative.
\<close>

theorem modulo_sign_counterexample:
  "modulo_tool (PInt (- 7)) (PInt 3) = Inr (PInt 2)
   \<and> \<not> is_zero (PInt 2)
   \<and> py_lt (PInt (- 7)) (PInt 0) \<and> \<not> py_lt (PInt 2) (PInt 0)"
  by (simp add: modulo_tool_def ev)

section \<open>The absolute value\<close>

text \<open>
  C8 (as amended). \<^verbatim>\<open>absolute\<close> never fails, and for every number \<open>x\<close> that is not
  \<open>NaN\<close>, \<^verbatim>\<open>absolute(x) >= 0\<close> and \<^verbatim>\<open>absolute(x) == absolute(-x)\<close>.
\<close>

theorem absolute_nonnegative_even:
  "(\<exists>r. absolute x = Inr r)
   \<and> (is_number x \<and> \<not> is_nan x \<longrightarrow>
        (\<exists>r r'. absolute x = Inr r \<and> absolute (py_neg x) = Inr r'
                \<and> py_le (PInt 0) r \<and> py_eq r r'))"
  by (cases x rule: is_nan.cases)
     (auto simp: absolute_def py_le_def py_eq_def fle_def signed_def)

theorem absolute_nonnegative_even_witness:
  "absolute (PInt (- 5)) = Inr (PInt 5) \<and> absolute (py_neg (PInt (- 5))) = Inr (PInt 5)
   \<and> py_le (PInt 0) (PInt 5) \<and> py_eq (PInt 5) (PInt 5)"
  using absolute_nonnegative_even [of "PInt (- 5)"]
  by (simp add: absolute_def)

text \<open>
  The claim as stated, for every number, fails at \<open>NaN\<close>: \<^verbatim>\<open>absolute(nan)\<close> is \<open>NaN\<close>,
  which is neither \<open>\<ge> 0\<close> nor equal to itself.
\<close>

theorem absolute_nan_counterexample:
  "absolute (PFloat NaN) = Inr (PFloat NaN)
   \<and> \<not> py_le (PInt 0) (PFloat NaN)
   \<and> absolute (py_neg (PFloat NaN)) = Inr (PFloat NaN)
   \<and> \<not> py_eq (PFloat NaN) (PFloat NaN)"
  by (simp add: absolute_def py_le_def py_eq_def fle_def)

section \<open>Failures of exponentiation\<close>














section \<open>Division\<close>

lemma py_truediv_float:
  assumes "\<not> (\<exists>i j. a = PInt i \<and> b = PInt j)" "as_double a = Inr x" "as_double b = Inr y"
    and "\<not> is_zero b"
  shows "py_truediv a b = Inr (PFloat (fdiv x y))"
proof -
  from assms(1) have "py_truediv a b = float_op float_div a b"
    by (cases a; cases b) simp_all
  moreover have "\<not> feq y (Finite False 0)"
    using assms(3,4) by (simp add: feq_zero as_double_is_zero)
  ultimately show ?thesis using assms(2,3) by (simp add: float_op_def float_div_def)
qed

lemma py_truediv_zero_division:
  assumes "py_truediv a b = Inl (ZeroDivisionError msg)"
  shows "is_zero b"
proof (cases "\<exists>i j. a = PInt i \<and> b = PInt j")
  case True
  with assms show ?thesis by (auto split: if_splits option.splits)
next
  case False
  then have "py_truediv a b = float_op float_div a b"
    by (cases a; cases b) simp_all
  with assms have "float_op float_div a b = Inl (ZeroDivisionError msg)" by simp
  then show ?thesis
    by (rule float_op_zero_division) (simp add: float_div_def split: if_splits)
qed

lemma py_truediv_error:
  assumes "py_truediv a b = Inl e"
  shows "(\<exists>msg. e = OverflowError msg) \<or> (\<exists>msg. e = ZeroDivisionError msg)"
proof (cases "\<exists>i j. a = PInt i \<and> b = PInt j")
  case True
  with assms show ?thesis by (auto split: if_splits option.splits)
next
  case False
  then have "py_truediv a b = float_op float_div a b"
    by (cases a; cases b) simp_all
  with assms have "float_op float_div a b = Inl e" by simp
  from float_op_error [OF this] show ?thesis
    by (auto simp: float_div_def split: if_splits)
qed

lemma py_truediv_too_large:
  assumes "\<not> (\<exists>i j. a = PInt i \<and> b = PInt j)" "int_too_large a \<or> int_too_large b"
  shows "py_truediv a b = Inl (OverflowError ''int too large to convert to float'')"
proof -
  from assms(1) have "py_truediv a b = float_op float_div a b"
    by (cases a; cases b) simp_all
  with float_op_too_large [OF assms(2)] show ?thesis by simp
qed

text \<open>
  C3 (as amended). \<^verbatim>\<open>divide(a, b)\<close> fails with the division-by-zero error, the
  \<^verbatim>\<open>ValueError\<close> with the fixed message of the source, if and only if \<open>b\<close> is zero, and no
  \<^verbatim>\<open>ZeroDivisionError\<close> of the interpreter ever leaves it. For \<open>b \<noteq> 0\<close> the outcome is
  fixed in every case. When at least one operand is a \<^verbatim>\<open>float\<close>, it returns the IEEE
  quotient of the two operands as doubles, unless an \<^verbatim>\<open>int\<close> operand is too large to
  convert, and then it fails with \<^verbatim>\<open>OverflowError\<close>. When both operands are \<^verbatim>\<open>int\<close>s, it
  returns the exact quotient rounded once, unless the rounded quotient is out of the
  range of a double, and then it fails with \<^verbatim>\<open>OverflowError\<close>.
\<close>

theorem divide_quotient:
  "(divide_tool a b = Inl (ValueError ''Cannot divide by zero'')) = is_zero b
   \<and> (\<exists>msg. divide_tool a b = Inl (ValueError msg) \<or> divide_tool a b = Inl (ZeroDivisionError msg))
       = is_zero b
   \<and> (\<not> is_zero b \<and> \<not> (\<exists>i j. a = PInt i \<and> b = PInt j)
        \<and> as_double a = Inr x \<and> as_double b = Inr y
      \<longrightarrow> divide_tool a b = Inr (PFloat (fdiv x y)))
   \<and> (\<not> is_zero b \<and> \<not> (\<exists>i j. a = PInt i \<and> b = PInt j)
        \<and> (int_too_large a \<or> int_too_large b)
      \<longrightarrow> divide_tool a b = Inl (OverflowError ''int too large to convert to float''))
   \<and> (j \<noteq> 0 \<and> round_mag (of_int \<bar>i\<bar> / of_int \<bar>j\<bar>) = Some r
      \<longrightarrow> divide_tool (PInt i) (PInt j) = Inr (PFloat (Finite ((i < 0) \<noteq> (j < 0)) r)))
   \<and> (j \<noteq> 0 \<and> round_mag (of_int \<bar>i\<bar> / of_int \<bar>j\<bar>) = None
      \<longrightarrow> divide_tool (PInt i) (PInt j)
           = Inl (OverflowError ''integer division result too large for a float''))"
proof (intro conjI)
  show 1: "(divide_tool a b = Inl (ValueError ''Cannot divide by zero'')) = is_zero b"
    using py_truediv_error [of a b]
    by (auto simp: divide_tool_def py_eq_zero)
  show "(\<exists>msg. divide_tool a b = Inl (ValueError msg) \<or> divide_tool a b = Inl (ZeroDivisionError msg))
       = is_zero b"
  proof (cases "is_zero b")
    case True
    then show ?thesis by (auto simp: divide_tool_def py_eq_zero)
  next
    case False
    then have "divide_tool a b = py_truediv a b" by (simp add: divide_tool_def py_eq_zero)
    with False show ?thesis
      using py_truediv_error [of a b] py_truediv_zero_division [of a b] by auto
  qed
  show "\<not> is_zero b \<and> \<not> (\<exists>i j. a = PInt i \<and> b = PInt j)
        \<and> as_double a = Inr x \<and> as_double b = Inr y
      \<longrightarrow> divide_tool a b = Inr (PFloat (fdiv x y))"
    using py_truediv_float [of a b x y]
    by (auto simp: divide_tool_def py_eq_zero)
  show "\<not> is_zero b \<and> \<not> (\<exists>i j. a = PInt i \<and> b = PInt j)
        \<and> (int_too_large a \<or> int_too_large b)
      \<longrightarrow> divide_tool a b = Inl (OverflowError ''int too large to convert to float'')"
    using py_truediv_too_large [of a b]
    by (auto simp: divide_tool_def py_eq_zero)
  show "j \<noteq> 0 \<and> round_mag (of_int \<bar>i\<bar> / of_int \<bar>j\<bar>) = Some r
      \<longrightarrow> divide_tool (PInt i) (PInt j) = Inr (PFloat (Finite ((i < 0) \<noteq> (j < 0)) r))"
    by (simp add: divide_tool_def py_eq_zero)
  show "j \<noteq> 0 \<and> round_mag (of_int \<bar>i\<bar> / of_int \<bar>j\<bar>) = None
      \<longrightarrow> divide_tool (PInt i) (PInt j)
           = Inl (OverflowError ''integer division result too large for a float'')"
    by (simp add: divide_tool_def py_eq_zero)
qed

theorem divide_quotient_witness:
  "divide_tool (PFloat (Finite True 10)) (PFloat (Finite False 2)) = Inr (PFloat (Finite True 5))
   \<and> divide_tool (PInt 10) (PInt 4) = Inr (PFloat (Finite False (5/2)))
   \<and> divide_tool (PInt (10 ^ 400)) (PFloat (Finite False 2))
       = Inl (OverflowError ''int too large to convert to float'')
   \<and> divide_tool (PInt (- (10 ^ 400))) (PInt 1)
       = Inl (OverflowError ''integer division result too large for a float'')"
proof -
  note D = divide_quotient [where a = "PFloat (Finite True 10)" and b = "PFloat (Finite False 2)"
      and x = "Finite True 10" and y = "Finite False 2" and i = 10 and j = 4 and r = "5/2"]
  note E = divide_quotient [where a = "PInt (10 ^ 400)" and b = "PFloat (Finite False 2)"
      and i = "- (10 ^ 400)" and j = 1]
  have f: "fdiv (Finite True 10) (Finite False 2) = Finite True 5" by (simp add: ev)
  have r: "round_mag (of_int \<bar>10\<bar> / of_int \<bar>4\<bar>) = Some (5/2)" by (simp add: ev)
  have "round_mag (10 ^ 400) = None" using ten_pow_400_overflows by (rule round_mag_overflow)
  then have n: "round_mag (of_int \<bar>- (10 ^ 400)\<bar> / of_int \<bar>1\<bar>) = None"
    by (simp del: power_numeral)
  have 1: "divide_tool (PFloat (Finite True 10)) (PFloat (Finite False 2))
      = Inr (PFloat (Finite True 5))"
    using D [THEN conjunct2, THEN conjunct2, THEN conjunct1] f by simp
  have 2: "divide_tool (PInt 10) (PInt 4) = Inr (PFloat (Finite False (5/2)))"
    using D [THEN conjunct2, THEN conjunct2, THEN conjunct2, THEN conjunct2, THEN conjunct1] r
    by simp
  have 3: "divide_tool (PInt (10 ^ 400)) (PFloat (Finite False 2))
       = Inl (OverflowError ''int too large to convert to float'')"
    using E [THEN conjunct2, THEN conjunct2, THEN conjunct2, THEN conjunct1]
      int_too_large_ten_pow_400 by (simp del: power_numeral)
  have 4: "divide_tool (PInt (- (10 ^ 400))) (PInt 1)
       = Inl (OverflowError ''integer division result too large for a float'')"
    using E [THEN conjunct2, THEN conjunct2, THEN conjunct2, THEN conjunct2, THEN conjunct2] n
    by (simp del: power_numeral)
  from 1 2 3 4 show ?thesis by blast
qed

text \<open>
  The claim as stated, that every \<open>b \<noteq> 0\<close> gives the quotient, fails on an \<^verbatim>\<open>int\<close> too
  large for a float: \<^verbatim>\<open>divide(10**400, 1)\<close> raises \<^verbatim>\<open>OverflowError\<close>.
\<close>

theorem divide_overflow_counterexample:
  "divide_tool (PInt (10 ^ 400)) (PInt 1)
     = Inl (OverflowError ''integer division result too large for a float'')"
proof -
  have "round_mag (10 ^ 400) = None" using ten_pow_400_overflows by (rule round_mag_overflow)
  then show ?thesis by (simp add: divide_tool_def py_eq_zero)
qed

section \<open>Percentage and the concrete scenarios\<close>

lemma py_mul_error:
  assumes "py_mul a b = Inl e"
  shows "e = OverflowError ''int too large to convert to float''"
proof (cases "\<exists>i j. a = PInt i \<and> b = PInt j")
  case True
  with assms show ?thesis by auto
next
  case False
  then have "py_mul a b = float_op (\<lambda>x y. Inr (fmul x y)) a b"
    by (cases a; cases b) simp_all
  with assms have "float_op (\<lambda>x y. Inr (fmul x y)) a b = Inl e" by simp
  from float_op_error [OF this] show ?thesis by auto
qed

lemma as_double_100: "as_double (PInt 100) = Inr (Finite False 100)"
  by (simp add: ev)

lemma percentage_floats:
  "percentage (PFloat x) (PFloat y) = Inr (PFloat (fdiv (fmul x y) (Finite False 100)))"
  by (simp add: percentage_def float_op_def float_div_def as_double_100 signed_def
        del: as_double.simps(2))

lemma percentage_error:
  "(\<exists>r. percentage v p = Inr r) \<or> (\<exists>msg. percentage v p = Inl (OverflowError msg))"
proof (cases "py_mul v p")
  case (Inl e)
  with py_mul_error [OF Inl] show ?thesis by (simp add: percentage_def)
next
  case (Inr q)
  show ?thesis
  proof (cases "py_truediv q (PInt 100)")
    case (Inl e)
    with py_truediv_error [OF Inl] py_truediv_zero_division [of q "PInt 100"] Inr
    show ?thesis by (auto simp: percentage_def)
  next
    case r: (Inr r)
    with Inr show ?thesis by (simp add: percentage_def)
  qed
qed

lemma sqrt_16: "sqrt 16 = 4"
proof -
  have "sqrt 16 = sqrt (4\<^sup>2)" by simp
  then show ?thesis by (simp only: real_sqrt_abs abs_numeral)
qed

lemma ten_pow_398_overflows: "(2::real) powi 1024 \<le> 10 ^ 400 / 100"
  by simp

lemma percentage_mixed:
  assumes "\<not> (is_int v \<and> is_int p)" "as_double v = Inr x" "as_double p = Inr y"
  shows "percentage v p = Inr (PFloat (fdiv (fmul x y) (Finite False 100)))"
proof -
  from assms(1) have "\<not> (\<exists>i j. v = PInt i \<and> p = PInt j)" unfolding both_int .
  then have "py_mul v p = float_op (\<lambda>x y. Inr (fmul x y)) v p" by (rule py_mul_float)
  with float_op_value [OF assms(2,3)] have "py_mul v p = Inr (PFloat (fmul x y))" by simp
  then show ?thesis
    by (simp add: percentage_def float_op_def float_div_def as_double_100 signed_def
          del: as_double.simps(2))
qed

lemma percentage_too_large:
  assumes "\<not> (is_int v \<and> is_int p)" "int_too_large v \<or> int_too_large p"
  shows "percentage v p = Inl (OverflowError ''int too large to convert to float'')"
proof -
  from assms(1) have "\<not> (\<exists>i j. v = PInt i \<and> p = PInt j)" unfolding both_int .
  then have "py_mul v p = float_op (\<lambda>x y. Inr (fmul x y)) v p" by (rule py_mul_float)
  with float_op_too_large [OF assms(2)] show ?thesis by (simp add: percentage_def)
qed

text \<open>
  C9 (as amended). \<^verbatim>\<open>percentage(value, percent)\<close> returns \<open>value \<times> percent / 100\<close>,
  computed as the source writes it, and its outcome is fixed in every case. When at
  least one argument is a \<^verbatim>\<open>float\<close>, it returns the IEEE product of the arguments as
  doubles divided by \<open>100\<close>, unless an \<^verbatim>\<open>int\<close> argument is too large to convert, and then it
  fails with \<^verbatim>\<open>OverflowError\<close>; so it never fails on two floats. When both arguments are
  \<^verbatim>\<open>int\<close>s, it returns the exact product divided by \<open>100\<close>, rounded once, unless the
  rounded quotient is out of the range of a double, and then it fails with
  \<^verbatim>\<open>OverflowError\<close>. The concrete scenarios hold as stated.
\<close>

theorem percentage_and_scenarios:
  "percentage (PFloat x) (PFloat y) = Inr (PFloat (fdiv (fmul x y) (Finite False 100)))
   \<and> percentage (PInt i) (PInt j) = py_truediv (PInt (i * j)) (PInt 100)
   \<and> ((\<exists>r. percentage v p = Inr r) \<or> (\<exists>msg. percentage v p = Inl (OverflowError msg)))
   \<and> (\<not> (is_int v \<and> is_int p) \<and> as_double v = Inr xv \<and> as_double p = Inr yp
      \<longrightarrow> percentage v p = Inr (PFloat (fdiv (fmul xv yp) (Finite False 100))))
   \<and> (\<not> (is_int v \<and> is_int p) \<and> (int_too_large v \<or> int_too_large p)
      \<longrightarrow> percentage v p = Inl (OverflowError ''int too large to convert to float''))
   \<and> (round_mag (of_int \<bar>i * j\<bar> / 100) = Some r
      \<longrightarrow> percentage (PInt i) (PInt j) = Inr (PFloat (Finite (i * j < 0) r)))
   \<and> (round_mag (of_int \<bar>i * j\<bar> / 100) = None
      \<longrightarrow> percentage (PInt i) (PInt j)
           = Inl (OverflowError ''integer division result too large for a float''))
   \<and> percentage (PInt 200) (PInt 15) = Inr (PFloat (Finite False 30))
   \<and> add (PInt 5) (PInt 3) = Inr (PInt 8)
   \<and> subtract (PInt 10) (PInt 4) = Inr (PInt 6)
   \<and> multiply (PInt 6) (PInt 7) = Inr (PInt 42)
   \<and> divide_tool (PInt 15) (PInt 3) = Inr (PFloat (Finite False 5))
   \<and> power_tool (PInt 2) (PInt 3) = Inr (PFloat (Finite False 8))
   \<and> modulo_tool (PInt 17) (PInt 5) = Inr (PInt 2)
   \<and> square_root (PInt 16) = Inr (PFloat (Finite False 4))
   \<and> absolute (PInt (- 5)) = Inr (PInt 5)"
proof (intro conjI)
  show "percentage (PFloat x) (PFloat y) = Inr (PFloat (fdiv (fmul x y) (Finite False 100)))"
    by (rule percentage_floats)
  show "percentage (PInt i) (PInt j) = py_truediv (PInt (i * j)) (PInt 100)"
    by (simp add: percentage_def)
  show "(\<exists>r. percentage v p = Inr r) \<or> (\<exists>msg. percentage v p = Inl (OverflowError msg))"
    by (rule percentage_error)
  show "\<not> (is_int v \<and> is_int p) \<and> as_double v = Inr xv \<and> as_double p = Inr yp
      \<longrightarrow> percentage v p = Inr (PFloat (fdiv (fmul xv yp) (Finite False 100)))"
    using percentage_mixed [of v p xv yp] by blast
  show "\<not> (is_int v \<and> is_int p) \<and> (int_too_large v \<or> int_too_large p)
      \<longrightarrow> percentage v p = Inl (OverflowError ''int too large to convert to float'')"
    using percentage_too_large [of v p] by blast
  show "round_mag (of_int \<bar>i * j\<bar> / 100) = Some r
      \<longrightarrow> percentage (PInt i) (PInt j) = Inr (PFloat (Finite (i * j < 0) r))"
    by (simp add: percentage_def)
  show "round_mag (of_int \<bar>i * j\<bar> / 100) = None
      \<longrightarrow> percentage (PInt i) (PInt j)
           = Inl (OverflowError ''integer division result too large for a float'')"
    by (simp add: percentage_def)
  show "percentage (PInt 200) (PInt 15) = Inr (PFloat (Finite False 30))"
    by (simp add: percentage_def ev)
  show "add (PInt 5) (PInt 3) = Inr (PInt 8)" by (simp add: add_def)
  show "subtract (PInt 10) (PInt 4) = Inr (PInt 6)" by (simp add: subtract_def)
  show "multiply (PInt 6) (PInt 7) = Inr (PInt 42)" by (simp add: multiply_def)
  show "divide_tool (PInt 15) (PInt 3) = Inr (PFloat (Finite False 5))"
    by (simp add: divide_tool_def ev)
  show "power_tool (PInt 2) (PInt 3) = Inr (PFloat (Finite False 8))"
    by (simp add: power_tool_def math_pow_def c_pow_def is_integral_def is_odd_integral_def ev)
  show "modulo_tool (PInt 17) (PInt 5) = Inr (PInt 2)" by (simp add: modulo_tool_def ev)
  show "square_root (PInt 16) = Inr (PFloat (Finite False 4))"
    by (simp add: square_root_def math_sqrt_def sqrt_16 ev)
  show "absolute (PInt (- 5)) = Inr (PInt 5)" by (simp add: absolute_def)
qed

theorem percentage_and_scenarios_witness:
  "percentage (PInt 200) (PFloat (Finite False 15)) = Inr (PFloat (Finite False 30))
   \<and> percentage (PFloat (Finite False 50)) (PInt 100) = Inr (PFloat (Finite False 50))
   \<and> percentage (PInt (10 ^ 400)) (PFloat (Finite False 1))
       = Inl (OverflowError ''int too large to convert to float'')
   \<and> percentage (PInt 50) (PInt 10) = Inr (PFloat (Finite False 5))
   \<and> percentage (PInt (10 ^ 400)) (PInt 100)
       = Inl (OverflowError ''integer division result too large for a float'')"
proof -
  note A = percentage_and_scenarios [where v = "PInt 200" and p = "PFloat (Finite False 15)"
      and xv = "Finite False 200" and yp = "Finite False 15" and i = 50 and j = 10 and r = 5]
  note B = percentage_and_scenarios [where v = "PFloat (Finite False 50)" and p = "PInt 100"
      and xv = "Finite False 50" and yp = "Finite False 100"]
  note C = percentage_and_scenarios [where v = "PInt (10 ^ 400)" and p = "PFloat (Finite False 1)"
      and i = "10 ^ 400" and j = 100]
  have a: "as_double (PInt 200) = Inr (Finite False 200)" by (simp add: ev)
  have f: "fdiv (fmul (Finite False 200) (Finite False 15)) (Finite False 100) = Finite False 30"
    by (simp add: ev)
  have g: "fdiv (fmul (Finite False 50) (Finite False 100)) (Finite False 100) = Finite False 50"
    by (simp add: ev)
  have r: "round_mag (of_int \<bar>50 * 10\<bar> / 100) = Some 5" by (simp add: ev)
  have "round_mag (10 ^ 400) = None" using ten_pow_400_overflows by (rule round_mag_overflow)
  then have n: "round_mag (of_int \<bar>10 ^ 400 * 100\<bar> / 100) = None"
    by (simp del: power_numeral add: abs_mult)
  have 1: "percentage (PInt 200) (PFloat (Finite False 15)) = Inr (PFloat (Finite False 30))"
    using A [THEN conjunct2, THEN conjunct2, THEN conjunct2, THEN conjunct1] a f
    by (simp del: as_double.simps(2))
  have 2: "percentage (PFloat (Finite False 50)) (PInt 100) = Inr (PFloat (Finite False 50))"
    using B [THEN conjunct2, THEN conjunct2, THEN conjunct2, THEN conjunct1] as_double_100 g
    by (simp del: as_double.simps(2))
  have 3: "percentage (PInt (10 ^ 400)) (PFloat (Finite False 1))
       = Inl (OverflowError ''int too large to convert to float'')"
    using C [THEN conjunct2, THEN conjunct2, THEN conjunct2, THEN conjunct2, THEN conjunct1]
      int_too_large_ten_pow_400 by (simp del: power_numeral)
  have 4: "percentage (PInt 50) (PInt 10) = Inr (PFloat (Finite False 5))"
    using A [THEN conjunct2, THEN conjunct2, THEN conjunct2, THEN conjunct2, THEN conjunct2,
        THEN conjunct1] r by simp
  have 5: "percentage (PInt (10 ^ 400)) (PInt 100)
       = Inl (OverflowError ''integer division result too large for a float'')"
    using C [THEN conjunct2, THEN conjunct2, THEN conjunct2, THEN conjunct2, THEN conjunct2,
        THEN conjunct2, THEN conjunct1] n by (simp del: power_numeral)
  from 1 2 3 4 5 show ?thesis by blast
qed

text \<open>
  The claim as stated, that \<^verbatim>\<open>percentage\<close> never fails, is false on an \<^verbatim>\<open>int\<close> too
  large for a float: \<^verbatim>\<open>percentage(10**400, 1)\<close> raises \<^verbatim>\<open>OverflowError\<close>.
\<close>

theorem percentage_overflow_counterexample:
  "percentage (PInt (10 ^ 400)) (PInt 1)
     = Inl (OverflowError ''integer division result too large for a float'')"
proof -
  have "round_mag (10 ^ 400 / 100) = None"
    using ten_pow_398_overflows by (rule round_mag_overflow)
  then show ?thesis by (simp add: percentage_def)
qed

section \<open>Addition and the round trip through subtraction\<close>

lemma round_mag_abs_error:
  assumes "0 \<le> v" "round_mag v = Some r"
  shows "\<bar>r - v\<bar> \<le> v * 2 powi (- 53) + 2 powi (- 1075)"
proof (cases "v = 0")
  case True
  with assms show ?thesis by (simp add: round_mag_def)
next
  case False
  with assms(1) have v: "0 < v" by simp
  show ?thesis
  proof (cases "- 1022 \<le> ilog2 v")
    case True
    then have "(2::real) powi (- 1022) \<le> 2 powi (ilog2 v)"
      by (intro power_int_increasing) simp_all
    with ilog2_bounds(1) [OF v] have "2 powi (- 1022) \<le> v" by linarith
    from round_mag_rel_error [OF this assms(2)]
    have "\<bar>r - v\<bar> \<le> v * 2 powi (- 53)" .
    moreover have "0 < (2::real) powi (- 1075)" by simp
    ultimately show ?thesis by linarith
  next
    case False
    then have "max (ilog2 v) (- 1022) - 53 = - 1075" by simp
    with round_mag_error [OF v assms(2)] have "\<bar>r - v\<bar> \<le> 2 powi (- 1075)" by simp
    moreover have "0 \<le> v * 2 powi (- 53)" using v by simp
    ultimately show ?thesis by linarith
  qed
qed

lemma round_sm_error:
  assumes "0 \<le> v" "round_sm s v = Finite u r"
  shows "u = s" and "\<bar>r - v\<bar> \<le> v * 2 powi (- 53) + 2 powi (- 1075)"
proof -
  from assms(2) have "u = s \<and> round_mag v = Some r"
    by (simp add: round_sm_def split: option.splits)
  then show "u = s" and "\<bar>r - v\<bar> \<le> v * 2 powi (- 53) + 2 powi (- 1075)"
    using round_mag_abs_error [OF assms(1)] by simp_all
qed

lemma fadd_error:
  assumes "fadd x y = Finite u r"
  shows "\<bar>signed u r - (dval x + dval y)\<bar>
           \<le> \<bar>dval x + dval y\<bar> * 2 powi (- 53) + 2 powi (- 1075)"
proof -
  from assms obtain s m t n where xy: "x = Finite s m" "y = Finite t n"
    by (cases x; cases y) (auto split: if_splits)
  define v where "v = signed s m + signed t n"
  have e: "0 < (2::real) powi (- 1075)" by simp
  show ?thesis
  proof (cases "v = 0")
    case True
    with assms xy have "r = 0" by (simp add: v_def Let_def)
    with True xy e show ?thesis by (simp add: v_def signed_def)
  next
    case False
    with assms xy have rs: "round_sm (v < 0) \<bar>v\<bar> = Finite u r"
      by (simp add: v_def Let_def)
    have "0 \<le> \<bar>v\<bar>" by simp
    from round_sm_error [OF this rs]
    have u: "u = (v < 0)" and b: "\<bar>r - \<bar>v\<bar>\<bar> \<le> \<bar>v\<bar> * 2 powi (- 53) + 2 powi (- 1075)"
      by simp_all
    have "\<bar>signed u r - v\<bar> = \<bar>r - \<bar>v\<bar>\<bar>"
      using u by (auto simp: signed_def)
    with b xy show ?thesis by (simp add: v_def)
  qed
qed

lemma fadd_commute: "fadd x y = fadd y x"
  by (cases x; cases y) (auto simp: add.commute Let_def)


lemma ilog2_unique:
  assumes "2 powi k \<le> x" "x < 2 powi (k + 1)"
  shows "ilog2 x = k"
proof -
  have x: "0 < x"
    using assms(1) zero_less_power_int [of "2::real" k] by linarith
  have "\<not> k + 1 \<le> ilog2 x"
  proof
    assume "k + 1 \<le> ilog2 x"
    then have "(2::real) powi (k + 1) \<le> 2 powi (ilog2 x)"
      by (intro power_int_increasing) simp_all
    with ilog2_bounds(1) [OF x] assms(2) show False by linarith
  qed
  moreover have "\<not> ilog2 x + 1 \<le> k"
  proof
    assume "ilog2 x + 1 \<le> k"
    then have "(2::real) powi (ilog2 x + 1) \<le> 2 powi k"
      by (intro power_int_increasing) simp_all
    with ilog2_bounds(2) [OF x] assms(1) show False by linarith
  qed
  ultimately show ?thesis by linarith
qed

lemma round_half_even_of_int: "round_half_even (of_int z) = z"
  by (simp add: round_half_even_def Let_def)

lemma round_mag_pow2:
  assumes "- 1074 \<le> k" "k \<le> 1023"
  shows "round_mag (2 powi k) = Some (2 powi k)"
proof -
  define x :: real where "x = 2 powi k"
  have x: "0 < x" by (simp add: x_def)
  have "x < 2 powi (k + 1)"
    unfolding x_def by (intro power_int_strict_increasing) simp_all
  moreover have "2 powi k \<le> x" by (simp add: x_def)
  ultimately have il: "ilog2 x = k" by (intro ilog2_unique)
  define e where "e = max k (- 1022)"
  define n where "n = k - (e - 52)"
  define u :: real where "u = 2 powi (e - 52)"
  have u: "0 < u" by (simp add: u_def)
  have n: "0 \<le> n" using assms(1) by (simp add: n_def e_def)
  have "x / u = 2 powi n"
    unfolding x_def u_def n_def by (simp add: power_int_diff)
  also have "\<dots> = of_int (2 ^ nat n)" using n by (simp add: power_int_nonneg_exp)
  finally have q: "x / u = of_int (2 ^ nat n)" .
  have "of_int (round_half_even (x / u)) * u = (x / u) * u"
    by (simp only: q round_half_even_of_int)
  also have "\<dots> = x" using u by simp
  finally have r: "of_int (round_half_even (x / u)) * u = x" .
  have lt: "x < 2 powi 1024"
    unfolding x_def using assms(2) by (intro power_int_strict_increasing) simp_all
  have "round_mag x = Some x"
    using x r lt il by (simp add: round_mag_def Let_def e_def u_def)
  then show ?thesis by (simp only: x_def)
qed

lemma dval_fneg: "dval (fneg y) = - dval y"
  by (cases y) (simp_all add: signed_def)

lemma add_sub_error_double:
  assumes "fadd x y = Finite u r" "fsub (Finite u r) y = Finite w q"
    and "\<bar>dval x\<bar> \<le> M" "\<bar>dval y\<bar> \<le> M"
  shows "\<bar>signed w q - dval x\<bar> \<le> 5 * (M * 2 powi (- 53)) + 3 * 2 powi (- 1075)"
proof -
  define eps :: real where "eps = 2 powi (- 53)"
  define eta :: real where "eta = 2 powi (- 1075)"
  define vs where "vs = signed u r"
  define vd where "vd = signed w q"
  have eps: "0 \<le> eps" "eps \<le> 1" by (simp_all add: eps_def power_int_minus_divide)
  have eta: "0 \<le> eta" by (simp add: eta_def)
  have M: "0 \<le> M" using assms(3) by linarith
  have e1: "\<bar>vs - (dval x + dval y)\<bar> \<le> \<bar>dval x + dval y\<bar> * eps + eta"
    using fadd_error [OF assms(1)] by (simp add: vs_def eps_def eta_def)
  have "fadd (Finite u r) (fneg y) = Finite w q" using assms(2) by (simp add: fsub_def)
  from fadd_error [OF this]
  have e2: "\<bar>vd - (vs - dval y)\<bar> \<le> \<bar>vs - dval y\<bar> * eps + eta"
    by (simp add: vs_def vd_def eps_def eta_def dval_fneg)
  have "\<bar>dval x + dval y\<bar> \<le> 2 * M" using assms(3,4) by linarith
  then have "\<bar>dval x + dval y\<bar> * eps \<le> 2 * M * eps"
    using eps(1) by (rule mult_right_mono)
  with e1 have a: "\<bar>vs - (dval x + dval y)\<bar> \<le> 2 * (M * eps) + eta" by simp
  have Me: "0 \<le> M * eps" using M eps(1) by simp
  have "\<bar>vs - dval y\<bar> \<le> M + (2 * (M * eps) + eta)" using a assms(3) by linarith
  then have "\<bar>vs - dval y\<bar> * eps \<le> (M + (2 * (M * eps) + eta)) * eps"
    using eps(1) by (rule mult_right_mono)
  also have "\<dots> = M * eps + (2 * (M * eps) + eta) * eps" by (simp add: algebra_simps)
  also have "(2 * (M * eps) + eta) * eps \<le> (2 * (M * eps) + eta) * 1"
    using eps Me eta by (intro mult_left_mono) simp_all
  finally have b: "\<bar>vs - dval y\<bar> * eps \<le> M * eps + (2 * (M * eps) + eta)" by simp
  from e2 b a have "\<bar>vd - dval x\<bar> \<le> 5 * (M * eps) + 3 * eta" by linarith
  then show ?thesis by (simp add: vd_def eps_def eta_def)
qed

lemma as_double_error_bound:
  assumes "as_double a = Inr x" "is_finite a"
  shows "\<exists>s m. x = Finite s m" and "\<bar>dval x - val a\<bar> \<le> \<bar>val a\<bar> * 2 powi (- 53)"
proof -
  have "(\<exists>s m. x = Finite s m) \<and> \<bar>dval x - val a\<bar> \<le> \<bar>val a\<bar> * 2 powi (- 53)"
  proof (cases a)
    case (PInt i)
    with assms(1) obtain r where r: "round_mag (of_int \<bar>i\<bar>) = Some r" "x = Finite (i < 0) r"
      by (auto split: option.splits)
    have "0 \<le> real_of_int \<bar>i\<bar>" by simp
    then have rn: "0 \<le> r" using r(1) by (rule round_mag_nonneg)
    have "\<bar>r - real_of_int \<bar>i\<bar>\<bar> \<le> real_of_int \<bar>i\<bar> * 2 powi (- 53)"
    proof (cases "i = 0")
      case True
      with r(1) show ?thesis by (simp add: round_mag_zero)
    next
      case False
      then have "1 \<le> \<bar>i\<bar>" by arith
      then have "1 \<le> real_of_int \<bar>i\<bar>" by (simp only: of_int_1_le_iff)
      moreover have "(2::real) powi (- 1022) \<le> 2 powi 0"
        by (intro power_int_increasing) simp_all
      ultimately have "2 powi (- 1022) \<le> real_of_int \<bar>i\<bar>" by simp
      then show ?thesis using r(1) by (rule round_mag_rel_error)
    qed
    moreover have "\<bar>dval x - val a\<bar> = \<bar>r - real_of_int \<bar>i\<bar>\<bar>"
      using r(2) PInt by (auto simp: signed_def)
    moreover have "\<bar>val a\<bar> = real_of_int \<bar>i\<bar>" using PInt by simp
    ultimately show ?thesis using r(2) by simp
  next
    case (PFloat z)
    with assms show ?thesis by (cases z) auto
  qed
  then show "\<exists>s m. x = Finite s m" and "\<bar>dval x - val a\<bar> \<le> \<bar>val a\<bar> * 2 powi (- 53)"
    by simp_all
qed


lemma float_op_commute:
  assumes "\<And>x y. f x y = f y x"
  shows "float_op (\<lambda>x y. Inr (f x y)) a b = float_op (\<lambda>x y. Inr (f x y)) b a"
proof -
  have "as_double a = Inl e \<Longrightarrow> as_double b = Inl e' \<Longrightarrow> e = e'" for e e'
    by (auto dest!: as_double_error)
  then show ?thesis
    using assms by (auto simp: float_op_def split: sum.splits)
qed

lemma py_add_commute: "py_add a b = py_add b a"
proof (cases "\<exists>i j. a = PInt i \<and> b = PInt j")
  case True
  then show ?thesis by (auto simp: add.commute)
next
  case False
  then have "\<not> (\<exists>i j. b = PInt i \<and> a = PInt j)" by blast
  then have "py_add b a = float_op (\<lambda>x y. Inr (fadd x y)) b a" by (rule py_add_float)
  moreover from False have "py_add a b = float_op (\<lambda>x y. Inr (fadd x y)) a b"
    by (rule py_add_float)
  ultimately show ?thesis
    using float_op_commute [of fadd a b, OF fadd_commute] by simp
qed

lemma fadd_finite_not_nan:
  assumes "fadd (Finite s m) (Finite t n) = z"
  shows "z \<noteq> NaN"
  using assms by (auto simp: Let_def round_sm_def split: if_splits option.splits)

lemma fsub_finite:
  assumes "fsub z (Finite t n) = Finite w q"
  shows "\<exists>u r. z = Finite u r"
  using assms by (cases z) (simp_all add: fsub_def)

lemma round_trip_bound:
  fixes M va vx vd eps eta :: real
  assumes "\<bar>vd - vx\<bar> \<le> 5 * ((M + M * eps) * eps) + 3 * eta"
    and "\<bar>vx - va\<bar> \<le> M * eps" "0 \<le> M" "0 \<le> eps" "5 * eps \<le> 1" "0 \<le> eta"
  shows "\<bar>vd - va\<bar> \<le> 8 * eps * M + 4 * eta"
proof -
  have Me: "0 \<le> M * eps" using assms(3,4) by simp
  have "5 * ((M + M * eps) * eps) = 5 * (M * eps) + (M * eps) * (5 * eps)"
    by (simp add: algebra_simps)
  also have "(M * eps) * (5 * eps) \<le> (M * eps) * 1"
    using assms(5) Me by (rule mult_left_mono)
  finally have "5 * ((M + M * eps) * eps) \<le> 6 * (M * eps)" by simp
  with assms(1,2) Me assms(6) have "\<bar>vd - va\<bar> \<le> 8 * (M * eps) + 4 * eta" by linarith
  then show ?thesis by (simp add: mult.assoc mult.commute)
qed

lemma add_too_large_iff:
  "(add a b = Inl (OverflowError ''int too large to convert to float''))
     = (\<not> (is_int a \<and> is_int b) \<and> (int_too_large a \<or> int_too_large b))"
proof (cases "is_int a \<and> is_int b")
  case True
  then have "\<exists>i j. a = PInt i \<and> b = PInt j" unfolding both_int .
  with True show ?thesis by (auto simp: add_def)
next
  case False
  then have "\<not> (\<exists>i j. a = PInt i \<and> b = PInt j)" unfolding both_int .
  then have f: "add a b = float_op (\<lambda>x y. Inr (fadd x y)) a b"
    by (simp add: add_def py_add_float)
  show ?thesis
  proof (cases "int_too_large a \<or> int_too_large b")
    case True
    from float_op_too_large [OF this] f False True show ?thesis by simp
  next
    case nl: False
    then obtain x y where "as_double a = Inr x" "as_double b = Inr y"
      using as_double_total [of a] as_double_total [of b] by auto
    from float_op_value [OF this] f nl show ?thesis by simp
  qed
qed

lemma add_value:
  assumes "\<not> (is_int a \<and> is_int b)" "as_double a = Inr x" "as_double b = Inr y"
  shows "add a b = Inr (PFloat (fadd x y))"
    and "subtract (PFloat (fadd x y)) b = Inr (PFloat (fsub (fadd x y) y))"
proof -
  from assms(1) have "\<not> (\<exists>i j. a = PInt i \<and> b = PInt j)" unfolding both_int .
  then have "add a b = float_op (\<lambda>x y. Inr (fadd x y)) a b"
    by (simp add: add_def py_add_float)
  with float_op_value [OF assms(2,3)] show "add a b = Inr (PFloat (fadd x y))" by simp
  have "as_double (PFloat (fadd x y)) = Inr (fadd x y)" by simp
  from float_op_value [OF this assms(3)]
  show "subtract (PFloat (fadd x y)) b = Inr (PFloat (fsub (fadd x y) y))"
    by (simp add: subtract_def py_sub_float)
qed

text \<open>
  C6 (as amended). For finite \<open>a\<close> and \<open>b\<close>, \<^verbatim>\<open>add(a, b)\<close> and \<^verbatim>\<open>add(b, a)\<close> have the same
  outcome, and a returned sum equals itself. The outcome of the addition is fixed in every
  case: on two \<^verbatim>\<open>int\<close>s it is the exact sum, and subtracting \<open>b\<close> gives \<open>a\<close> back exactly;
  otherwise it is the IEEE sum of the operands as doubles, from which the subtraction
  returns the IEEE difference, and it fails, with \<^verbatim>\<open>OverflowError\<close>, exactly when an
  \<^verbatim>\<open>int\<close> operand of such a mixed call is too large to convert. When the round trip ends
  in a finite number \<open>d\<close>, it is close to \<open>a\<close> relative to the larger operand:
  \<open>\<bar>d - a\<bar> \<le> 2\<^sup>-\<^sup>5\<^sup>0 \<times> max \<bar>a\<bar> \<bar>b\<bar> + 2\<^sup>-\<^sup>1\<^sup>0\<^sup>7\<^sup>3\<close>.
\<close>

theorem add_commutes_round_trip:
  assumes "is_finite a" "is_finite b"
  shows "add a b = add b a
    \<and> ((\<exists>s d. add a b = Inr s \<and> subtract s b = Inr d)
        \<or> add a b = Inl (OverflowError ''int too large to convert to float''))
    \<and> (add a b = Inr s \<longrightarrow> py_eq s s)
    \<and> (add a b = Inr s \<and> subtract s b = Inr d \<and> is_finite d
        \<longrightarrow> \<bar>val d - val a\<bar> \<le> 2 powi (- 50) * max \<bar>val a\<bar> \<bar>val b\<bar> + 2 powi (- 1073))
    \<and> (a = PInt i \<and> b = PInt j
        \<longrightarrow> add a b = Inr (PInt (i + j)) \<and> subtract (PInt (i + j)) b = Inr a)
    \<and> (add a b = Inl (OverflowError ''int too large to convert to float''))
        = (\<not> (is_int a \<and> is_int b) \<and> (int_too_large a \<or> int_too_large b))
    \<and> (\<not> (is_int a \<and> is_int b) \<and> as_double a = Inr x \<and> as_double b = Inr y
        \<longrightarrow> add a b = Inr (PFloat (fadd x y))
          \<and> subtract (PFloat (fadd x y)) b = Inr (PFloat (fsub (fadd x y) y)))"
proof (intro conjI impI)
  show "(add a b = Inl (OverflowError ''int too large to convert to float''))
        = (\<not> (is_int a \<and> is_int b) \<and> (int_too_large a \<or> int_too_large b))"
    by (rule add_too_large_iff)
  show "add a b = Inr (PFloat (fadd x y))"
    if "\<not> (is_int a \<and> is_int b) \<and> as_double a = Inr x \<and> as_double b = Inr y"
    using that add_value(1) [of a b x y] by blast
  show "subtract (PFloat (fadd x y)) b = Inr (PFloat (fsub (fadd x y) y))"
    if "\<not> (is_int a \<and> is_int b) \<and> as_double a = Inr x \<and> as_double b = Inr y"
    using that add_value(2) [of a b x y] by blast
  show "add a b = add b a" by (simp add: add_def py_add_commute)
  show "(\<exists>s d. add a b = Inr s \<and> subtract s b = Inr d)
        \<or> add a b = Inl (OverflowError ''int too large to convert to float'')"
  proof (cases "\<exists>i j. a = PInt i \<and> b = PInt j")
    case True
    then show ?thesis by (auto simp: add_def subtract_def)
  next
    case False
    then have f: "add a b = float_op (\<lambda>x y. Inr (fadd x y)) a b"
      by (simp add: add_def py_add_float)
    show ?thesis
    proof (cases "add a b")
      case (Inl e)
      with f have "float_op (\<lambda>x y. Inr (fadd x y)) a b = Inl e" by simp
      from float_op_error [OF this] Inl show ?thesis by auto
    next
      case (Inr s)
      with f have "float_op (\<lambda>x y. Inr (fadd x y)) a b = Inr s" by simp
      from float_op_result [OF this] obtain x y where
        xy: "as_double a = Inr x" "as_double b = Inr y" "s = PFloat (fadd x y)" by auto
      then have "subtract s b = Inr (PFloat (fsub (fadd x y) y))"
        by (simp add: subtract_def py_sub_float float_op_def)
      with Inr show ?thesis by simp
    qed
  qed
  show "add a b = Inr (PInt (i + j))" if "a = PInt i \<and> b = PInt j"
    using that by (simp add: add_def)
  show "subtract (PInt (i + j)) b = Inr a" if "a = PInt i \<and> b = PInt j"
    using that by (simp add: subtract_def)
  show "py_eq s s" if s: "add a b = Inr s"
  proof (cases "\<exists>i j. a = PInt i \<and> b = PInt j")
    case True
    with s show ?thesis by (auto simp: add_def py_eq_def)
  next
    case False
    with s have "float_op (\<lambda>x y. Inr (fadd x y)) a b = Inr s"
      by (simp add: add_def py_add_float)
    from float_op_result [OF this] obtain x y where
      xy: "as_double a = Inr x" "as_double b = Inr y" "s = PFloat (fadd x y)" by auto
    from as_double_error_bound(1) [OF xy(1) assms(1)] as_double_error_bound(1) [OF xy(2) assms(2)]
    obtain u m t n where f: "x = Finite u m" "y = Finite t n" by blast
    then have "fadd x y \<noteq> NaN" using fadd_finite_not_nan by blast
    then show ?thesis using xy(3) by (cases "fadd x y") (simp_all add: py_eq_def)
  qed
  show "\<bar>val d - val a\<bar> \<le> 2 powi (- 50) * max \<bar>val a\<bar> \<bar>val b\<bar> + 2 powi (- 1073)"
    if h: "add a b = Inr s \<and> subtract s b = Inr d \<and> is_finite d"
  proof (cases "\<exists>i j. a = PInt i \<and> b = PInt j")
    case True
    then obtain i j where "a = PInt i" "b = PInt j" by blast
    with h have "d = a" by (auto simp: add_def subtract_def)
    moreover have "(0::real) \<le> 2 powi (- 50) * max \<bar>val a\<bar> \<bar>val b\<bar> + 2 powi (- 1073)"
      by (intro add_nonneg_nonneg mult_nonneg_nonneg) simp_all
    ultimately show ?thesis by simp
  next
    case False
    define eps :: real where "eps = 2 powi (- 53)"
    define eta :: real where "eta = 2 powi (- 1075)"
    define M where "M = max \<bar>val a\<bar> \<bar>val b\<bar>"
    have eps: "0 \<le> eps" "5 * eps \<le> 1" by (simp_all add: eps_def power_int_minus_divide)
    have eta: "0 \<le> eta" by (simp add: eta_def)
    have M: "0 \<le> M" "\<bar>val a\<bar> \<le> M" "\<bar>val b\<bar> \<le> M" by (simp_all add: M_def)
    from False h have "float_op (\<lambda>x y. Inr (fadd x y)) a b = Inr s"
      by (simp add: add_def py_add_float)
    from float_op_result [OF this] obtain x y where
      xy: "as_double a = Inr x" "as_double b = Inr y" "s = PFloat (fadd x y)" by auto
    note ea = as_double_error_bound [OF xy(1) assms(1)]
    note eb = as_double_error_bound [OF xy(2) assms(2)]
    from ea(1) eb(1) obtain u m t n where f: "x = Finite u m" "y = Finite t n" by blast
    from h xy have "d = PFloat (fsub (fadd x y) y)"
      by (simp add: subtract_def py_sub_float float_op_def)
    with h obtain w q where wq: "fsub (fadd x y) y = Finite w q" "d = PFloat (Finite w q)"
      by (cases "fsub (fadd x y) y") auto
    from fsub_finite [of "fadd x y" t n w q] wq(1) f(2)
    obtain u' r where ur: "fadd x y = Finite u' r" by auto
    with wq(1) have sub: "fsub (Finite u' r) y = Finite w q" by simp
    have "\<bar>val a\<bar> * eps \<le> M * eps" using M(2) eps(1) by (rule mult_right_mono)
    with ea(2) have xa: "\<bar>dval x - val a\<bar> \<le> M * eps" by (simp add: eps_def)
    have "\<bar>val b\<bar> * eps \<le> M * eps" using M(3) eps(1) by (rule mult_right_mono)
    with eb(2) have yb: "\<bar>dval y - val b\<bar> \<le> M * eps" by (simp add: eps_def)
    have bx: "\<bar>dval x\<bar> \<le> M + M * eps" using xa M(2) by linarith
    have by': "\<bar>dval y\<bar> \<le> M + M * eps" using yb M(3) by linarith
    from add_sub_error_double [OF ur sub bx by']
    have "\<bar>dval (Finite w q) - dval x\<bar> \<le> 5 * ((M + M * eps) * eps) + 3 * eta"
      by (simp add: eps_def eta_def)
    from round_trip_bound [OF this xa M(1) eps eta]
    have "\<bar>val d - val a\<bar> \<le> 8 * eps * M + 4 * eta" using wq(2) by simp
    moreover have "8 * eps = 2 powi (- 50)" by (simp add: eps_def power_int_minus_divide)
    moreover have "4 * eta = 2 powi (- 1073)" by (simp add: eta_def power_int_minus_divide)
    ultimately show ?thesis by (simp add: M_def)
  qed
qed


theorem add_commutes_round_trip_witness:
  "add (PFloat (Finite False (1/2))) (PFloat (Finite False (1/4)))
     = add (PFloat (Finite False (1/4))) (PFloat (Finite False (1/2)))
   \<and> add (PFloat (Finite False (1/2))) (PFloat (Finite False (1/4)))
       = Inr (PFloat (Finite False (3/4)))
   \<and> subtract (PFloat (Finite False (3/4))) (PFloat (Finite False (1/4)))
       = Inr (PFloat (Finite False (1/2)))
   \<and> py_eq (PFloat (Finite False (3/4))) (PFloat (Finite False (3/4)))
   \<and> \<bar>val (PFloat (Finite False (1/2))) - val (PFloat (Finite False (1/2)))\<bar>
       \<le> 2 powi (- 50) * max \<bar>val (PFloat (Finite False (1/2)))\<bar> \<bar>val (PFloat (Finite False (1/4)))\<bar>
         + 2 powi (- 1073)
   \<and> add (PInt 2) (PInt 3) = Inr (PInt 5) \<and> subtract (PInt 5) (PInt 3) = Inr (PInt 2)
   \<and> add (PInt (10 ^ 400)) (PFloat (Finite False 1))
       = Inl (OverflowError ''int too large to convert to float'')"
proof -
  note A = add_commutes_round_trip [where a = "PFloat (Finite False (1/2))"
      and b = "PFloat (Finite False (1/4))" and s = "PFloat (Finite False (3/4))"
      and d = "PFloat (Finite False (1/2))" and x = "Finite False (1/2)"
      and y = "Finite False (1/4)" and i = 0 and j = 0]
  note B = add_commutes_round_trip [where a = "PInt 2" and b = "PInt 3" and i = 2 and j = 3]
  note C = add_commutes_round_trip [where a = "PInt (10 ^ 400)" and b = "PFloat (Finite False 1)"]
  have f: "fadd (Finite False (1/2)) (Finite False (1/4)) = Finite False (3/4)"
    by (simp add: ev)
  have g: "fsub (Finite False (3/4)) (Finite False (1/4)) = Finite False (1/2)"
    by (simp add: fsub_def ev)
  have v: "add (PFloat (Finite False (1/2))) (PFloat (Finite False (1/4)))
       = Inr (PFloat (Finite False (3/4)))
     \<and> subtract (PFloat (Finite False (3/4))) (PFloat (Finite False (1/4)))
       = Inr (PFloat (Finite False (1/2)))"
    using A [THEN conjunct2, THEN conjunct2, THEN conjunct2, THEN conjunct2, THEN conjunct2,
        THEN conjunct2] f g by simp
  have 1: "add (PFloat (Finite False (1/2))) (PFloat (Finite False (1/4)))
     = add (PFloat (Finite False (1/4))) (PFloat (Finite False (1/2)))"
    using A [THEN conjunct1] by simp
  have 2: "py_eq (PFloat (Finite False (3/4))) (PFloat (Finite False (3/4)))"
    using A [THEN conjunct2, THEN conjunct2, THEN conjunct1] v by simp
  have 3: "\<bar>val (PFloat (Finite False (1/2))) - val (PFloat (Finite False (1/2)))\<bar>
       \<le> 2 powi (- 50) * max \<bar>val (PFloat (Finite False (1/2)))\<bar> \<bar>val (PFloat (Finite False (1/4)))\<bar>
         + 2 powi (- 1073)"
    using A [THEN conjunct2, THEN conjunct2, THEN conjunct2, THEN conjunct1] v by simp
  have 4: "add (PInt 2) (PInt 3) = Inr (PInt 5) \<and> subtract (PInt 5) (PInt 3) = Inr (PInt 2)"
    using B [THEN conjunct2, THEN conjunct2, THEN conjunct2, THEN conjunct2, THEN conjunct1]
    by simp
  have 5: "add (PInt (10 ^ 400)) (PFloat (Finite False 1))
       = Inl (OverflowError ''int too large to convert to float'')"
    using C [THEN conjunct2, THEN conjunct2, THEN conjunct2, THEN conjunct2, THEN conjunct2,
        THEN conjunct1] int_too_large_ten_pow_400 by (simp del: power_numeral)
  from 1 2 3 4 5 v show ?thesis by blast
qed

text \<open>
  The claim as stated, that \<^verbatim>\<open>add(a, b) - b\<close> is close to \<open>a\<close> for all finite \<open>a\<close> and
  \<open>b\<close>, fails when the sum overflows: \<open>2\<^sup>1\<^sup>0\<^sup>2\<^sup>3 + 2\<^sup>1\<^sup>0\<^sup>2\<^sup>3\<close> is \<^verbatim>\<open>inf\<close>, and so is the difference.
  It also fails relative to \<open>a\<close> when \<open>a\<close> is absorbed by a larger \<open>b\<close>:
  \<open>1.0 + 2\<^sup>5\<^sup>3\<close> rounds to \<open>2\<^sup>5\<^sup>3\<close>, and the difference is \<open>0.0\<close>.
\<close>

theorem add_round_trip_counterexample:
  "is_number (PFloat (Finite False (2 ^ 1023)))
   \<and> add (PFloat (Finite False (2 ^ 1023))) (PFloat (Finite False (2 ^ 1023)))
       = Inr (PFloat (Infinity False))
   \<and> subtract (PFloat (Infinity False)) (PFloat (Finite False (2 ^ 1023)))
       = Inr (PFloat (Infinity False))
   \<and> add (PFloat (Finite False 1)) (PFloat (Finite False (2 ^ 53)))
       = Inr (PFloat (Finite False (2 ^ 53)))
   \<and> subtract (PFloat (Finite False (2 ^ 53))) (PFloat (Finite False (2 ^ 53)))
       = Inr (PFloat (Finite False 0))"
proof (intro conjI)
  show "is_number (PFloat (Finite False (2 ^ 1023)))"
    using round_mag_pow2 [of 1023] by simp
  have "(2::real) powi 1024 \<le> 2 ^ 1023 + 2 ^ 1023" by simp
  then have "round_mag (2 ^ 1023 + 2 ^ 1023) = None" by (rule round_mag_overflow)
  then show "add (PFloat (Finite False (2 ^ 1023))) (PFloat (Finite False (2 ^ 1023)))
       = Inr (PFloat (Infinity False))"
    by (simp add: add_def float_op_def Let_def round_sm_def signed_def)
  show "subtract (PFloat (Infinity False)) (PFloat (Finite False (2 ^ 1023)))
       = Inr (PFloat (Infinity False))"
    by (simp add: subtract_def float_op_def fsub_def)
  show "add (PFloat (Finite False 1)) (PFloat (Finite False (2 ^ 53)))
       = Inr (PFloat (Finite False (2 ^ 53)))"
    by (simp add: add_def ev)
  show "subtract (PFloat (Finite False (2 ^ 53))) (PFloat (Finite False (2 ^ 53)))
       = Inr (PFloat (Finite False 0))"
    by (simp add: subtract_def fsub_def ev)
qed

section \<open>The round trip through multiplication and division\<close>

lemma mul_div_bound:
  fixes A m mq n mp eps eta :: real
  assumes "\<bar>mq - mp / n\<bar> \<le> (mp / n) * eps + eta" "\<bar>mp - m * n\<bar> \<le> m * n * eps"
    and "0 < n" "0 \<le> m" "m \<le> A + A * eps" "0 \<le> A" "0 \<le> eps" "eps \<le> 1"
  shows "\<bar>mq - m\<bar> \<le> 6 * (A * eps) + eta"
proof -
  have "mp / n - m = (mp - m * n) / n" using assms(3) by (simp add: field_simps)
  then have "\<bar>mp / n - m\<bar> = \<bar>mp - m * n\<bar> / n" using assms(3) by (simp add: abs_divide)
  also have "\<dots> \<le> (m * n * eps) / n" using assms(2,3) by (intro divide_right_mono) simp_all
  also have "\<dots> = m * eps" using assms(3) by simp
  finally have d: "\<bar>mp / n - m\<bar> \<le> m * eps" .
  have Ae: "0 \<le> A * eps" using assms(6,7) by simp
  have m0: "0 \<le> m * eps" using assms(4,7) by simp
  have me: "m * eps \<le> (A + A * eps) * eps" using assms(5,7) by (rule mult_right_mono)
  have "(A + A * eps) * eps = A * eps + (A * eps) * eps" by (simp add: algebra_simps)
  also have "(A * eps) * eps \<le> (A * eps) * 1" using assms(8) Ae by (rule mult_left_mono)
  finally have "(A + A * eps) * eps \<le> 2 * (A * eps)" by simp
  with me have me2: "m * eps \<le> 2 * (A * eps)" by linarith
  have "mp / n \<le> m + m * eps" using d by linarith
  then have t1: "(mp / n) * eps \<le> (m + m * eps) * eps"
    using assms(7) by (rule mult_right_mono)
  have t2: "(m + m * eps) * eps = m * eps + (m * eps) * eps" by (simp add: algebra_simps)
  have t3: "(m * eps) * eps \<le> (m * eps) * 1" using assms(8) m0 by (rule mult_left_mono)
  from t1 t2 t3 have "(mp / n) * eps \<le> 2 * (m * eps)" by linarith
  with assms(1) d me2 show ?thesis by linarith
qed

lemma product_normal:
  fixes A B m n eps P :: real
  assumes "2 * P \<le> A * B" "0 \<le> A" "0 \<le> B" "\<bar>m - A\<bar> \<le> A * eps" "\<bar>n - B\<bar> \<le> B * eps"
    and "0 \<le> eps" "eps \<le> 1/4"
  shows "P \<le> m * n"
proof -
  have c: "3/4 \<le> 1 - eps" using assms(7) by simp
  have "A * (3/4) \<le> A * (1 - eps)" using c assms(2) by (rule mult_left_mono)
  moreover have "A * (1 - eps) \<le> m" using assms(4) by (simp add: algebra_simps)
  ultimately have m: "A * (3/4) \<le> m" by linarith
  have "B * (3/4) \<le> B * (1 - eps)" using c assms(3) by (rule mult_left_mono)
  moreover have "B * (1 - eps) \<le> n" using assms(5) by (simp add: algebra_simps)
  ultimately have n: "B * (3/4) \<le> n" by linarith
  have m0: "0 \<le> m" using m assms(2) by simp
  have b0: "0 \<le> B * (3/4)" using assms(3) by simp
  have "(A * (3/4)) * (B * (3/4)) \<le> m * n" using m n m0 b0 by (rule mult_mono)
  moreover have "(A * (3/4)) * (B * (3/4)) = (A * B) * (9/16)" by simp
  moreover have "0 \<le> A * B" using assms(2,3) by simp
  ultimately show ?thesis using assms(1) by linarith
qed

lemma fdiv_finite:
  assumes "fdiv z (Finite t n) = Finite w q"
  shows "\<exists>u r. z = Finite u r"
  using assms by (cases z) simp_all

lemma fmul_finite:
  assumes "fmul (Finite s m) (Finite t n) = Finite u r"
  shows "u = (s \<noteq> t)" and "round_mag (m * n) = Some r"
  using assms by (auto simp: round_sm_def split: option.splits)

lemma fdiv_finite_result:
  assumes "fdiv (Finite s m) (Finite t n) = Finite u r" "n \<noteq> 0"
  shows "u = (s \<noteq> t)" and "round_mag (m / n) = Some r"
  using assms by (auto simp: round_sm_def split: option.splits)

lemma multiply_too_large_iff:
  "(multiply a b = Inl (OverflowError ''int too large to convert to float''))
     = (\<not> (is_int a \<and> is_int b) \<and> (int_too_large a \<or> int_too_large b))"
proof (cases "is_int a \<and> is_int b")
  case True
  then have "\<exists>i j. a = PInt i \<and> b = PInt j" unfolding both_int .
  with True show ?thesis by (auto simp: multiply_def)
next
  case False
  then have "\<not> (\<exists>i j. a = PInt i \<and> b = PInt j)" unfolding both_int .
  then have f: "multiply a b = float_op (\<lambda>x y. Inr (fmul x y)) a b"
    by (simp add: multiply_def py_mul_float)
  show ?thesis
  proof (cases "int_too_large a \<or> int_too_large b")
    case True
    from float_op_too_large [OF this] f False True show ?thesis by simp
  next
    case nl: False
    then obtain x y where "as_double a = Inr x" "as_double b = Inr y"
      using as_double_total [of a] as_double_total [of b] by auto
    from float_op_value [OF this] f nl show ?thesis by simp
  qed
qed

lemma multiply_value:
  shows "\<not> (is_int a \<and> is_int b) \<Longrightarrow> as_double a = Inr x \<Longrightarrow> as_double b = Inr y
      \<Longrightarrow> multiply a b = Inr (PFloat (fmul x y))"
    and "\<not> is_zero b \<Longrightarrow> as_double b = Inr y
      \<Longrightarrow> divide_tool (PFloat (fmul x y)) b = Inr (PFloat (fdiv (fmul x y) y))"
proof -
  assume n: "\<not> (is_int a \<and> is_int b)" and xy: "as_double a = Inr x" "as_double b = Inr y"
  from n have "\<not> (\<exists>i j. a = PInt i \<and> b = PInt j)" unfolding both_int .
  then have "multiply a b = float_op (\<lambda>x y. Inr (fmul x y)) a b"
    by (simp add: multiply_def py_mul_float)
  with float_op_value [OF xy] show "multiply a b = Inr (PFloat (fmul x y))" by simp
next
  assume nz: "\<not> is_zero b" and y: "as_double b = Inr y"
  have "py_truediv (PFloat (fmul x y)) b = Inr (PFloat (fdiv (fmul x y) y))"
    using y nz by (intro py_truediv_float) simp_all
  with nz show "divide_tool (PFloat (fmul x y)) b = Inr (PFloat (fdiv (fmul x y) y))"
    by (simp add: divide_tool_def py_eq_zero)
qed

text \<open>
  C7 (as amended). For finite numbers \<open>a\<close> and \<open>b\<close> with \<open>b \<noteq> 0\<close>, the outcome of the
  multiplication followed by the division by \<open>b\<close> is fixed in every case. On two
  \<^verbatim>\<open>int\<close>s the product is exact and the division returns \<open>a\<close> converted to a float, rounded
  once (a zero with the sign of \<open>b\<close>), and fails with \<^verbatim>\<open>OverflowError\<close> when \<open>a\<close> is too large
  for that. Otherwise the
  multiplication returns the IEEE product of the operands as doubles, and the division its
  IEEE quotient by \<open>b\<close>; the multiplication fails, with \<^verbatim>\<open>OverflowError\<close>, exactly when an
  \<^verbatim>\<open>int\<close> operand of such a mixed call is too large to convert. When the exact product
  is at least \<open>2\<^sup>-\<^sup>1\<^sup>0\<^sup>2\<^sup>1\<close> in magnitude, so that it does not underflow, and the round trip
  ends in a finite number \<open>q\<close>, so that nothing overflowed, \<open>q\<close> is close to \<open>a\<close> relative
  to \<open>a\<close>: \<open>\<bar>q - a\<bar> \<le> 2\<^sup>-\<^sup>5\<^sup>0 \<times> \<bar>a\<bar> + 2\<^sup>-\<^sup>1\<^sup>0\<^sup>7\<^sup>5\<close>.
\<close>

theorem multiply_divide_round_trip:
  assumes "is_number a" "is_number b" "is_finite a" "is_finite b"
  shows "(\<not> is_zero b \<longrightarrow>
           (\<exists>p q. multiply a b = Inr p \<and> divide_tool p b = Inr q)
         \<or> multiply a b = Inl (OverflowError ''int too large to convert to float'')
         \<or> (\<exists>p. multiply a b = Inr p \<and> divide_tool p b
               = Inl (OverflowError ''integer division result too large for a float'')))
    \<and> (multiply a b = Inr p \<and> divide_tool p b = Inr q \<and> is_finite q
        \<and> 2 powi (- 1021) \<le> \<bar>val a * val b\<bar>
        \<longrightarrow> \<bar>val q - val a\<bar> \<le> 2 powi (- 50) * \<bar>val a\<bar> + 2 powi (- 1075))
    \<and> (multiply a b = Inl (OverflowError ''int too large to convert to float''))
        = (\<not> (is_int a \<and> is_int b) \<and> (int_too_large a \<or> int_too_large b))
    \<and> (\<not> (is_int a \<and> is_int b) \<and> \<not> is_zero b \<and> as_double a = Inr x \<and> as_double b = Inr y
        \<longrightarrow> multiply a b = Inr (PFloat (fmul x y))
          \<and> divide_tool (PFloat (fmul x y)) b = Inr (PFloat (fdiv (fmul x y) y)))
    \<and> (a = PInt i \<and> b = PInt j \<and> j \<noteq> 0
        \<longrightarrow> multiply a b = Inr (PInt (i * j))
          \<and> divide_tool (PInt (i * j)) b
            = (case round_mag (of_int \<bar>i\<bar>) of
                 None \<Rightarrow> Inl (OverflowError ''integer division result too large for a float'')
               | Some r \<Rightarrow> Inr (PFloat (Finite ((i * j < 0) \<noteq> (j < 0)) r))))"
proof (intro conjI impI)
  show "(multiply a b = Inl (OverflowError ''int too large to convert to float''))
        = (\<not> (is_int a \<and> is_int b) \<and> (int_too_large a \<or> int_too_large b))"
    by (rule multiply_too_large_iff)
  show "multiply a b = Inr (PFloat (fmul x y))"
    if "\<not> (is_int a \<and> is_int b) \<and> \<not> is_zero b \<and> as_double a = Inr x \<and> as_double b = Inr y"
    using that multiply_value(1) [of a b x y] by blast
  show "divide_tool (PFloat (fmul x y)) b = Inr (PFloat (fdiv (fmul x y) y))"
    if "\<not> (is_int a \<and> is_int b) \<and> \<not> is_zero b \<and> as_double a = Inr x \<and> as_double b = Inr y"
    using that multiply_value(2) [of b y x] by blast
  show "multiply a b = Inr (PInt (i * j))" if "a = PInt i \<and> b = PInt j \<and> j \<noteq> 0"
    using that by (simp add: multiply_def)
  show "divide_tool (PInt (i * j)) b
            = (case round_mag (of_int \<bar>i\<bar>) of
                 None \<Rightarrow> Inl (OverflowError ''integer division result too large for a float'')
               | Some r \<Rightarrow> Inr (PFloat (Finite ((i * j < 0) \<noteq> (j < 0)) r)))"
    if "a = PInt i \<and> b = PInt j \<and> j \<noteq> 0"
    using that by (simp add: divide_tool_def py_eq_zero abs_mult)
  show "(\<exists>p q. multiply a b = Inr p \<and> divide_tool p b = Inr q)
         \<or> multiply a b = Inl (OverflowError ''int too large to convert to float'')
         \<or> (\<exists>p. multiply a b = Inr p \<and> divide_tool p b
               = Inl (OverflowError ''integer division result too large for a float''))"
    if nz: "\<not> is_zero b"
  proof (cases "\<exists>i j. a = PInt i \<and> b = PInt j")
    case True
    with nz show ?thesis
      by (auto simp: multiply_def divide_tool_def py_eq_zero split: option.splits)
  next
    case False
    then have f: "multiply a b = float_op (\<lambda>x y. Inr (fmul x y)) a b"
      by (simp add: multiply_def py_mul_float)
    show ?thesis
    proof (cases "multiply a b")
      case (Inl e)
      with f have "float_op (\<lambda>x y. Inr (fmul x y)) a b = Inl e" by simp
      from float_op_error [OF this] Inl show ?thesis by auto
    next
      case (Inr r)
      with f have "float_op (\<lambda>x y. Inr (fmul x y)) a b = Inr r" by simp
      from float_op_result [OF this] obtain x y where
        xy: "as_double a = Inr x" "as_double b = Inr y" "r = PFloat (fmul x y)" by auto
      have "py_truediv (PFloat (fmul x y)) b = Inr (PFloat (fdiv (fmul x y) y))"
        using xy(2) nz by (intro py_truediv_float) simp_all
      with nz xy(3) have "divide_tool r b = Inr (PFloat (fdiv (fmul x y) y))"
        by (simp add: divide_tool_def py_eq_zero)
      with Inr show ?thesis by simp
    qed
  qed
  show "\<bar>val q - val a\<bar> \<le> 2 powi (- 50) * \<bar>val a\<bar> + 2 powi (- 1075)"
    if h: "multiply a b = Inr p \<and> divide_tool p b = Inr q \<and> is_finite q
        \<and> 2 powi (- 1021) \<le> \<bar>val a * val b\<bar>"
  proof -
    define eps :: real where "eps = 2 powi (- 53)"
    define eta :: real where "eta = 2 powi (- 1075)"
    define A where "A = \<bar>val a\<bar>"
    define B where "B = \<bar>val b\<bar>"
    have eps: "0 \<le> eps" "eps \<le> 1" "eps \<le> 1/4"
      by (simp_all add: eps_def power_int_minus_divide)
    have eta: "0 \<le> eta" by (simp add: eta_def)
    have A: "0 \<le> A" and B: "0 \<le> B" by (simp_all add: A_def B_def)
    have Ae: "0 \<le> A * eps" using A eps(1) by simp
    have "(2::real) powi (- 1022 + 1) = 2 powi (- 1022) * 2 powi 1"
      by (rule power_int_add) simp
    then have "2 * (2::real) powi (- 1022) = 2 powi (- 1021)" by simp
    with h have AB: "2 * 2 powi (- 1022) \<le> A * B" by (simp add: A_def B_def abs_mult)
    have pos: "(0::real) < 2 powi (- 1022)" by simp
    have fin: "\<bar>val q - val a\<bar> \<le> 2 powi (- 50) * \<bar>val a\<bar> + 2 powi (- 1075)"
      if t: "\<bar>val q - val a\<bar> \<le> 8 * (A * eps) + eta"
    proof -
      have e8: "8 * eps = 2 powi (- 50)" by (simp add: eps_def power_int_minus_divide)
      have "8 * (A * eps) = (8 * eps) * A" by simp
      then have "8 * (A * eps) = 2 powi (- 50) * A" by (simp only: e8)
      with t have "\<bar>val q - val a\<bar> \<le> 2 powi (- 50) * A + eta" by (simp only:)
      then show ?thesis by (simp only: A_def eta_def)
    qed
    have nzero: "\<not> is_zero b"
    proof
      assume "is_zero b"
      then have "val b = 0" by (cases b rule: is_zero.cases) (simp_all add: signed_def)
      with AB pos show False by (simp add: B_def)
    qed
    show ?thesis
    proof (cases "\<exists>i j. a = PInt i \<and> b = PInt j")
      case True
      then obtain i j where ij: "a = PInt i" "b = PInt j" by blast
      with nzero have j: "j \<noteq> 0" by simp
      have i: "i \<noteq> 0"
      proof
        assume "i = 0"
        with ij AB pos show False by (simp add: A_def)
      qed
      from h ij have p: "p = PInt (i * j)" by (simp add: multiply_def)
      have "real_of_int \<bar>i * j\<bar> / real_of_int \<bar>j\<bar> = real_of_int \<bar>i\<bar>"
        using j by (simp add: abs_mult)
      with h p ij j obtain r where
        r: "round_mag (real_of_int \<bar>i\<bar>) = Some r"
           "q = PFloat (Finite ((i * j < 0) \<noteq> (j < 0)) r)"
        by (auto simp: divide_tool_def py_eq_zero split: option.splits)
      have "((i * j < 0) \<noteq> (j < 0)) = (i < 0)"
        using i j by (auto simp: mult_less_0_iff)
      with r(2) have q: "val q = signed (i < 0) r" by simp
      from i have "1 \<le> \<bar>i\<bar>" by arith
      then have "1 \<le> real_of_int \<bar>i\<bar>" by (simp only: of_int_1_le_iff)
      moreover have "(2::real) powi (- 1022) \<le> 2 powi 0"
        by (intro power_int_increasing) simp_all
      ultimately have "2 powi (- 1022) \<le> real_of_int \<bar>i\<bar>" by simp
      then have "\<bar>r - real_of_int \<bar>i\<bar>\<bar> \<le> real_of_int \<bar>i\<bar> * 2 powi (- 53)"
        using r(1) by (rule round_mag_rel_error)
      moreover have "\<bar>val q - val a\<bar> = \<bar>r - real_of_int \<bar>i\<bar>\<bar>"
        using q ij by (auto simp: signed_def)
      moreover have "A = real_of_int \<bar>i\<bar>" using ij by (simp add: A_def)
      ultimately have "\<bar>val q - val a\<bar> \<le> A * eps" by (simp add: eps_def)
      with Ae eta have "\<bar>val q - val a\<bar> \<le> 8 * (A * eps) + eta" by linarith
      then show ?thesis by (rule fin)
    next
      case False
      with h have "float_op (\<lambda>x y. Inr (fmul x y)) a b = Inr p"
        by (simp add: multiply_def py_mul_float)
      from float_op_result [OF this] obtain x y where
        xy: "as_double a = Inr x" "as_double b = Inr y" "p = PFloat (fmul x y)" by auto
      note ea = as_double_error_bound [OF xy(1) assms(3)]
      note eb = as_double_error_bound [OF xy(2) assms(4)]
      from ea(1) eb(1) obtain s m t n where f: "x = Finite s m" "y = Finite t n" by blast
      have m0: "0 \<le> m" using xy(1) assms(1) unfolding f(1) by (rule as_double_nonneg)
      have n0: "0 \<le> n" using xy(2) assms(2) unfolding f(2) by (rule as_double_nonneg)
      have "py_truediv (PFloat (fmul x y)) b = Inr (PFloat (fdiv (fmul x y) y))"
        using xy(2) nzero by (intro py_truediv_float) simp_all
      with nzero xy(3) h have qd: "q = PFloat (fdiv (fmul x y) y)"
        by (simp add: divide_tool_def py_eq_zero)
      with h obtain w mq where wq: "fdiv (fmul x y) y = Finite w mq" "q = PFloat (Finite w mq)"
        by (cases "fdiv (fmul x y) y") auto
      from fdiv_finite [of "fmul x y" t n w mq] wq(1) f(2)
      obtain u mp where ump: "fmul x y = Finite u mp" by auto
      from fmul_finite [of s m t n u mp] ump f
      have u: "u = (s \<noteq> t)" and rp: "round_mag (m * n) = Some mp" by simp_all
      have xa: "\<bar>m - A\<bar> \<le> A * eps"
      proof -
        have "\<bar>m - A\<bar> \<le> \<bar>dval x - val a\<bar>"
          using m0 f(1) by (auto simp: A_def signed_def)
        with ea(2) show ?thesis by (simp add: A_def eps_def)
      qed
      have yb: "\<bar>n - B\<bar> \<le> B * eps"
      proof -
        have "\<bar>n - B\<bar> \<le> \<bar>dval y - val b\<bar>"
          using n0 f(2) by (auto simp: B_def signed_def)
        with eb(2) show ?thesis by (simp add: B_def eps_def)
      qed
      from product_normal [OF AB A B xa yb eps(1,3)]
      have mn: "2 powi (- 1022) \<le> m * n" .
      with pos have mnpos: "0 < m * n" by linarith
      have npos: "0 < n"
      proof (rule ccontr)
        assume "\<not> 0 < n"
        with n0 have "n = 0" by simp
        with mnpos show False by simp
      qed
      from mn rp have e1: "\<bar>mp - m * n\<bar> \<le> m * n * eps"
        unfolding eps_def by (rule round_mag_rel_error)
      from fdiv_finite_result [of u mp t n w mq] wq(1) ump f(2) npos
      have w: "w = (u \<noteq> t)" and rq: "round_mag (mp / n) = Some mq" by simp_all
      have "0 \<le> m * n" using mnpos by simp
      then have mp0: "0 \<le> mp" using rp by (rule round_mag_nonneg)
      then have "0 \<le> mp / n" using npos by simp
      then have e2: "\<bar>mq - mp / n\<bar> \<le> (mp / n) * eps + eta"
        using rq unfolding eps_def eta_def by (rule round_mag_abs_error)
      have mA: "m \<le> A + A * eps" using xa by linarith
      from mul_div_bound [OF e2 e1 npos m0 mA A eps(1,2)]
      have b1: "\<bar>mq - m\<bar> \<le> 6 * (A * eps) + eta" .
      have ws: "w = s" using u w by auto
      have "\<bar>val q - dval x\<bar> = \<bar>mq - m\<bar>"
        using wq(2) f(1) ws by (auto simp: signed_def)
      with b1 have t1: "\<bar>val q - dval x\<bar> \<le> 6 * (A * eps) + eta" by (simp only:)
      have t2: "\<bar>dval x - val a\<bar> \<le> A * eps" using ea(2) by (simp add: A_def eps_def)
      have "\<bar>val q - val a\<bar> \<le> \<bar>val q - dval x\<bar> + \<bar>dval x - val a\<bar>" by linarith
      with t1 t2 Ae have "\<bar>val q - val a\<bar> \<le> 8 * (A * eps) + eta" by linarith
      then show ?thesis by (rule fin)
    qed
  qed
qed


theorem multiply_divide_round_trip_witness:
  "multiply (PFloat (Finite False 3)) (PFloat (Finite False 2)) = Inr (PFloat (Finite False 6))
   \<and> divide_tool (PFloat (Finite False 6)) (PFloat (Finite False 2))
       = Inr (PFloat (Finite False 3))
   \<and> \<bar>val (PFloat (Finite False 3)) - val (PFloat (Finite False 3))\<bar>
       \<le> 2 powi (- 50) * \<bar>val (PFloat (Finite False 3))\<bar> + 2 powi (- 1075)
   \<and> multiply (PInt 6) (PInt 3) = Inr (PInt 18)
   \<and> divide_tool (PInt 18) (PInt 3) = Inr (PFloat (Finite False 6))
   \<and> multiply (PInt (10 ^ 400)) (PFloat (Finite False 1))
       = Inl (OverflowError ''int too large to convert to float'')"
proof -
  have a: "is_number (PFloat (Finite False 3))" by (simp add: ev)
  have b: "is_number (PFloat (Finite False 2))" by (simp add: ev)
  note A = multiply_divide_round_trip [where a = "PFloat (Finite False 3)"
      and b = "PFloat (Finite False 2)" and p = "PFloat (Finite False 6)"
      and q = "PFloat (Finite False 3)" and x = "Finite False 3" and y = "Finite False 2"
      and i = 0 and j = 0, OF a b]
  note B = multiply_divide_round_trip [where a = "PInt 6" and b = "PInt 3" and i = 6 and j = 3]
  have c: "is_number (PFloat (Finite False 1))" by (simp add: ev)
  note C = multiply_divide_round_trip [where a = "PInt (10 ^ 400)"
      and b = "PFloat (Finite False 1)", OF _ c]
  have f: "fmul (Finite False 3) (Finite False 2) = Finite False 6" by (simp add: ev)
  have g: "fdiv (Finite False 6) (Finite False 2) = Finite False 3" by (simp add: ev)
  have r: "round_mag (of_int \<bar>6\<bar>) = Some 6" by (simp add: ev)
  have v: "multiply (PFloat (Finite False 3)) (PFloat (Finite False 2))
       = Inr (PFloat (Finite False 6))
     \<and> divide_tool (PFloat (Finite False 6)) (PFloat (Finite False 2))
       = Inr (PFloat (Finite False 3))"
    using A [THEN conjunct2, THEN conjunct2, THEN conjunct2, THEN conjunct1] f g by simp
  have 1: "\<exists>p q. multiply (PFloat (Finite False 3)) (PFloat (Finite False 2)) = Inr p
       \<and> divide_tool p (PFloat (Finite False 2)) = Inr q"
    using A [THEN conjunct1] v by simp
  have 2: "\<bar>val (PFloat (Finite False 3)) - val (PFloat (Finite False 3))\<bar>
       \<le> 2 powi (- 50) * \<bar>val (PFloat (Finite False 3))\<bar> + 2 powi (- 1075)"
    using A [THEN conjunct2, THEN conjunct1] v by simp
  have 3: "multiply (PInt 6) (PInt 3) = Inr (PInt 18)
     \<and> divide_tool (PInt 18) (PInt 3) = Inr (PFloat (Finite False 6))"
    using B [THEN conjunct2, THEN conjunct2, THEN conjunct2, THEN conjunct2] r by simp
  have 4: "multiply (PInt (10 ^ 400)) (PFloat (Finite False 1))
       = Inl (OverflowError ''int too large to convert to float'')"
    using C [THEN conjunct2, THEN conjunct2, THEN conjunct1] int_too_large_ten_pow_400
    by (simp del: power_numeral)
  from 2 3 4 v show ?thesis by blast
qed

text \<open>
  The claim as stated, for all finite \<open>a\<close> and \<open>b \<noteq> 0\<close>, fails when the product
  overflows: \<open>2\<^sup>6\<^sup>0\<^sup>0 \<times> 2\<^sup>6\<^sup>0\<^sup>0\<close> is \<^verbatim>\<open>inf\<close> in floating point, and \<^verbatim>\<open>inf\<close> divided by
  \<open>2\<^sup>6\<^sup>0\<^sup>0\<close> is \<^verbatim>\<open>inf\<close>, not \<open>2\<^sup>6\<^sup>0\<^sup>0\<close>.
\<close>

theorem multiply_divide_overflow_counterexample:
  "is_number (PFloat (Finite False (2 ^ 600)))
   \<and> is_finite (PFloat (Finite False (2 ^ 600)))
   \<and> \<not> is_zero (PFloat (Finite False (2 ^ 600)))
   \<and> multiply (PFloat (Finite False (2 ^ 600))) (PFloat (Finite False (2 ^ 600)))
       = Inr (PFloat (Infinity False))
   \<and> divide_tool (PFloat (Infinity False)) (PFloat (Finite False (2 ^ 600)))
       = Inr (PFloat (Infinity False))"
proof (intro conjI)
  show "is_number (PFloat (Finite False (2 ^ 600)))"
    using round_mag_pow2 [of 600] by simp
  show "is_finite (PFloat (Finite False (2 ^ 600)))" by simp
  show "\<not> is_zero (PFloat (Finite False (2 ^ 600)))" by simp
  have "(2::real) powi 1024 \<le> 2 ^ 600 * 2 ^ 600" by simp
  then have "round_mag (2 ^ 600 * 2 ^ 600) = None" by (rule round_mag_overflow)
  then show "multiply (PFloat (Finite False (2 ^ 600))) (PFloat (Finite False (2 ^ 600)))
       = Inr (PFloat (Infinity False))"
    by (simp add: multiply_def float_op_def round_sm_def)
  show "divide_tool (PFloat (Infinity False)) (PFloat (Finite False (2 ^ 600)))
       = Inr (PFloat (Infinity False))"
    by (simp add: divide_tool_def py_eq_zero float_op_def float_div_def signed_def)
qed

section \<open>The square root\<close>

lemma round_mag_lt:
  assumes "round_mag x = Some r"
  shows "r < 2 powi 1024"
proof (cases "x = 0")
  case True
  with assms have "r = 0" by (simp add: round_mag_def)
  then show ?thesis by simp
next
  case False
  with assms show ?thesis
    by (auto simp: round_mag_def Let_def split: if_splits simp del: power_int_numeral)
qed

lemma round_mag_min:
  assumes "round_mag x = Some r" "0 < r"
  shows "2 powi (- 1074) \<le> r"
proof -
  from assms have x: "x \<noteq> 0" by (auto simp: round_mag_def)
  define e where "e = max (ilog2 x) (- 1022)"
  define u :: real where "u = 2 powi (e - 52)"
  define k where "k = round_half_even (x / u)"
  have u: "0 < u" by (simp add: u_def)
  from x assms(1) have r: "r = of_int k * u"
    by (auto simp: round_mag_def Let_def e_def u_def k_def split: if_splits)
  with assms(2) u have "0 < real_of_int k" by (simp add: zero_less_mult_iff)
  then have "1 \<le> k" by simp
  then have "1 \<le> real_of_int k" by (simp only: of_int_1_le_iff)
  then have "1 * u \<le> of_int k * u" using u by (intro mult_right_mono) simp_all
  then have "u \<le> of_int k * u" by simp
  with r have a: "u \<le> r" by simp
  have "- 1074 \<le> e - 52" by (simp add: e_def)
  then have "(2::real) powi (- 1074) \<le> 2 powi (e - 52)"
    by (intro power_int_increasing) simp_all
  then have "2 powi (- 1074) \<le> u" by (simp only: u_def)
  with a show ?thesis by linarith
qed

lemma round_mag_in_range:
  assumes "0 < x" "x < 2 powi 1023"
  shows "\<exists>r. round_mag x = Some r"
proof -
  define e where "e = max (ilog2 x) (- 1022)"
  define u :: real where "u = 2 powi (e - 52)"
  define k where "k = round_half_even (x / u)"
  define p :: real where "p = 2 powi 1023"
  have u: "0 < u" by (simp add: u_def)
  have il: "ilog2 x \<le> 1022"
  proof (rule ccontr)
    assume "\<not> ilog2 x \<le> 1022"
    then have "1023 \<le> ilog2 x" by simp
    then have "(2::real) powi 1023 \<le> 2 powi (ilog2 x)"
      by (intro power_int_increasing) simp_all
    with ilog2_bounds(1) [OF assms(1)] assms(2) show False by linarith
  qed
  then have "e - 52 \<le> 970" by (simp add: e_def)
  then have "u \<le> 2 powi 970" unfolding u_def by (intro power_int_increasing) simp_all
  moreover have "(2::real) powi 970 \<le> 2 powi 1023"
    by (intro power_int_increasing) simp_all
  ultimately have up: "u \<le> p" by (simp add: p_def)
  have "\<bar>of_int k - x / u\<bar> \<le> 1/2" unfolding k_def by (rule round_half_even_error)
  then have "of_int k \<le> x / u + 1/2" by linarith
  then have "of_int k * u \<le> (x / u + 1/2) * u" using u by (intro mult_right_mono) simp_all
  also have "\<dots> = x + u / 2" using u by (simp add: field_simps)
  finally have "of_int k * u \<le> x + u / 2" .
  with assms(2) up u have "of_int k * u < p + p" by (simp add: p_def)
  moreover have "(2::real) powi (1023 + 1) = 2 powi 1023 * 2 powi 1"
    by (rule power_int_add) simp
  then have "p + p = 2 powi 1024" by (simp add: p_def)
  ultimately have "\<not> 2 powi 1024 \<le> of_int k * u" by simp
  then have "round_mag x = Some (of_int k * u)"
    using assms(1)
    by (simp add: round_mag_def Let_def e_def u_def k_def del: power_int_numeral)
  then show ?thesis by blast
qed

lemma sqrt_lower:
  assumes "2 powi (- 1074) \<le> m"
  shows "2 powi (- 537) \<le> sqrt m"
proof -
  have "(2::real) powi (- 537 + - 537) = 2 powi (- 537) * 2 powi (- 537)"
    by (rule power_int_add) simp
  then have "((2::real) powi (- 537))\<^sup>2 = 2 powi (- 1074)"
    by (simp add: power2_eq_square)
  with assms have "((2::real) powi (- 537))\<^sup>2 \<le> m" by simp
  then show ?thesis by (rule real_le_rsqrt)
qed

lemma sqrt_upper:
  assumes "0 \<le> m" "m < 2 powi 1024"
  shows "sqrt m < 2 powi 1023"
proof -
  have "(2::real) powi (512 + 512) = 2 powi 512 * 2 powi 512"
    by (rule power_int_add) simp
  then have "((2::real) powi 512)\<^sup>2 = 2 powi 1024"
    by (simp add: power2_eq_square del: power_int_numeral)
  with assms(2) have "m < ((2::real) powi 512)\<^sup>2" by (simp del: power_int_numeral)
  moreover have "(0::real) \<le> 2 powi 512" by simp
  ultimately have "sqrt m < 2 powi 512" using assms(1) by (intro real_less_lsqrt)
  moreover have "(2::real) powi 512 \<le> 2 powi 1023"
    by (intro power_int_increasing) simp_all
  ultimately show ?thesis by linarith
qed

lemma sqrt_rounded:
  assumes "2 powi (- 1074) \<le> m" "m < 2 powi 1024"
  shows "\<exists>r. round_mag (sqrt m) = Some r \<and> 0 < r
           \<and> \<bar>r * r - m\<bar> \<le> 3 * (m * 2 powi (- 53))"
proof -
  define eps :: real where "eps = 2 powi (- 53)"
  define q where "q = sqrt m"
  have eps: "0 \<le> eps" "eps \<le> 1" by (simp_all add: eps_def power_int_minus_divide)
  have m: "0 < m"
    using assms(1) zero_less_power_int [of "2::real" "- 1074"] by linarith
  have ql: "2 powi (- 537) \<le> q" unfolding q_def using assms(1) by (rule sqrt_lower)
  have q: "0 < q" using m by (simp add: q_def)
  have qq: "q * q = m" using m by (simp add: q_def)
  have "(2::real) powi (- 1022) \<le> 2 powi (- 537)"
    by (intro power_int_increasing) simp_all
  with ql have qn: "2 powi (- 1022) \<le> q" by linarith
  have "q < 2 powi 1023" unfolding q_def using assms(2) m by (intro sqrt_upper) simp_all
  from round_mag_in_range [OF q this] obtain r where r: "round_mag q = Some r" by blast
  from round_mag_rel_error [OF qn r] have e: "\<bar>r - q\<bar> \<le> q * eps" by (simp add: eps_def)
  from round_mag_pos [OF qn r] have rp: "0 < r" .
  define d where "d = r - q"
  have d: "\<bar>d\<bar> \<le> q * eps" using e by (simp add: d_def)
  have qe: "0 \<le> q * eps" using q eps(1) by simp
  have me: "0 \<le> m * eps" using m eps(1) by simp
  have "r * r - m = d * d + 2 * (q * d)"
    by (simp add: d_def qq [symmetric] algebra_simps)
  moreover have "\<bar>d * d + 2 * (q * d)\<bar> \<le> \<bar>d * d\<bar> + \<bar>2 * (q * d)\<bar>"
    by (rule abs_triangle_ineq)
  moreover have "\<bar>2 * (q * d)\<bar> = 2 * \<bar>q * d\<bar>" by (simp add: abs_mult)
  ultimately have "\<bar>r * r - m\<bar> \<le> \<bar>d * d\<bar> + 2 * \<bar>q * d\<bar>" by linarith
  moreover have "\<bar>d * d\<bar> \<le> (q * eps) * (q * eps)"
    unfolding abs_mult using d qe by (intro mult_mono) simp_all
  moreover have "(q * eps) * (q * eps) = (m * eps) * eps"
    by (simp add: qq [symmetric] algebra_simps)
  moreover have "(m * eps) * eps \<le> (m * eps) * 1"
    using eps(2) me by (rule mult_left_mono)
  moreover have "\<bar>q * d\<bar> \<le> q * (q * eps)"
    unfolding abs_mult using d q by (intro mult_mono) simp_all
  moreover have "q * (q * eps) = m * eps" by (simp add: qq [symmetric] algebra_simps)
  ultimately have "\<bar>r * r - m\<bar> \<le> 3 * (m * eps)" by linarith
  with r rp show ?thesis by (auto simp: q_def eps_def)
qed


lemma as_double_rounded:
  assumes "as_double x = Inr (Finite s m)" "is_number x"
  shows "\<exists>v. round_mag v = Some m"
proof (cases x)
  case (PInt i)
  with assms(1) have "round_mag (of_int \<bar>i\<bar>) = Some m" by (auto split: option.splits)
  then show ?thesis by blast
next
  case (PFloat z)
  with assms have "round_mag m = Some m" by simp
  then show ?thesis by blast
qed

lemma is_zero_val: "is_zero x \<Longrightarrow> val x = 0"
  by (cases x rule: is_zero.cases) (simp_all add: signed_def)

lemma nonneg_sign:
  assumes "\<not> py_lt x (PInt 0)" "is_number x" "as_double x = Inr (Finite s m)" "m \<noteq> 0"
  shows "\<not> s" and "0 < m"
proof -
  from as_double_nonneg [OF assms(3,2)] assms(4) show m: "0 < m" by simp
  from as_double_is_zero [OF assms(3)] assms(4) have nz: "\<not> is_zero x" by simp
  from as_double_sign [OF assms(3,2) nz] assms(1)
  have "\<not> fless (Finite s m) (Finite False 0)" by simp
  with m show "\<not> s" by (auto simp: signed_def)
qed

lemma math_sqrt_error:
  assumes "math_sqrt x = Inl e"
  shows "e = OverflowError ''int too large to convert to float''
         \<or> e = ValueError ''math domain error''"
proof (cases "as_double x")
  case (Inl e')
  with assms as_double_error [OF Inl] show ?thesis by (simp add: math_sqrt_def)
next
  case (Inr z)
  with assms show ?thesis
    by (cases z) (auto simp: math_sqrt_def split: if_splits)
qed

lemma math_sqrt_no_value_error:
  assumes "\<not> py_lt x (PInt 0)" "is_number x"
  shows "math_sqrt x \<noteq> Inl (ValueError msg)"
proof (cases "as_double x")
  case (Inl e)
  with as_double_error [OF Inl] show ?thesis by (simp add: math_sqrt_def)
next
  case (Inr z)
  show ?thesis
  proof (cases z)
    case NaN
    with Inr show ?thesis by (simp add: math_sqrt_def)
  next
    case (Infinity s)
    with Inr have "x = PFloat (Infinity s)" by (cases x) (auto split: option.splits)
    with assms(1) have "\<not> s" by (simp add: py_lt_def)
    with Inr Infinity show ?thesis by (simp add: math_sqrt_def)
  next
    case (Finite s m)
    show ?thesis
    proof (cases "m = 0")
      case True
      with Inr Finite show ?thesis by (simp add: math_sqrt_def)
    next
      case False
      from Inr Finite have "as_double x = Inr (Finite s m)" by simp
      from nonneg_sign(1) [OF assms this False] Inr Finite False show ?thesis
        by (simp add: math_sqrt_def)
    qed
  qed
qed

lemma square_root_positive:
  assumes "\<not> py_lt x (PInt 0)" "is_number x" "as_double x = Inr (Finite s m)" "m \<noteq> 0"
  shows "\<exists>r. round_mag (sqrt m) = Some r \<and> 0 < r
           \<and> \<bar>r * r - m\<bar> \<le> 3 * (m * 2 powi (- 53))
           \<and> square_root x = Inr (PFloat (Finite False r))"
proof -
  note sm = nonneg_sign [OF assms]
  from as_double_rounded [OF assms(3,2)] obtain v where v: "round_mag v = Some m" by blast
  from round_mag_min [OF v sm(2)] have lo: "2 powi (- 1074) \<le> m" .
  from round_mag_lt [OF v] have hi: "m < 2 powi 1024" .
  from sqrt_rounded [OF lo hi] obtain r where
    r: "round_mag (sqrt m) = Some r" "0 < r" "\<bar>r * r - m\<bar> \<le> 3 * (m * 2 powi (- 53))"
    by blast
  have "square_root x = Inr (PFloat (Finite False r))"
    using assms(1,3,4) sm(1) r(1) by (simp add: square_root_def math_sqrt_def round_sm_def)
  with r show ?thesis by blast
qed

lemma sqrt_trip_bound:
  fixes rr m vx A eps :: real
  assumes "\<bar>rr - m\<bar> \<le> 3 * (m * eps)" "\<bar>m - vx\<bar> \<le> A * eps" "A = \<bar>vx\<bar>"
    and "0 \<le> eps" "eps \<le> 1"
  shows "\<bar>rr - vx\<bar> \<le> 8 * eps * A"
proof -
  have A: "0 \<le> A" using assms(3) by simp
  have Ae: "0 \<le> A * eps" using A assms(4) by simp
  have "m \<le> A + A * eps" using assms(2,3) by linarith
  then have t1: "m * eps \<le> (A + A * eps) * eps" using assms(4) by (rule mult_right_mono)
  have t2: "(A + A * eps) * eps = A * eps + (A * eps) * eps" by (simp add: algebra_simps)
  have t3: "(A * eps) * eps \<le> (A * eps) * 1" using assms(5) Ae by (rule mult_left_mono)
  from t1 t2 t3 have "m * eps \<le> 2 * (A * eps)" by linarith
  with assms(1,2) Ae have "\<bar>rr - vx\<bar> \<le> 8 * (A * eps)" by linarith
  then show ?thesis by (simp add: mult.assoc mult.commute)
qed

lemma fle_not_fless:
  assumes "fle (Finite False 0) z"
  shows "\<not> fless z (Finite False 0)"
  using assms by (cases z) (auto simp: fle_def signed_def)

text \<open>
  C5 (as amended). \<^verbatim>\<open>square_root(x)\<close> fails with the invalid-argument error, the
  \<^verbatim>\<open>ValueError\<close> with the message of the source, if and only if \<open>x < 0\<close>, and no other
  \<^verbatim>\<open>ValueError\<close> leaves it. For \<open>x\<close> not below zero the outcome is fixed in every case: an
  \<^verbatim>\<open>int\<close> too large to convert makes it fail with \<^verbatim>\<open>OverflowError\<close>; a zero is returned
  with its sign, \<^verbatim>\<open>inf\<close> and \<open>NaN\<close> are returned unchanged; and for every other \<open>x\<close> it
  returns the correctly rounded square root of \<open>x\<close> as a double, which always exists. The
  result \<open>r\<close> for \<open>x \<ge> 0\<close> satisfies \<open>r \<ge> 0\<close>, and for finite \<open>x\<close> it is finite with
  \<open>\<bar>r\<^sup>2 - x\<bar> \<le> 2\<^sup>-\<^sup>5\<^sup>0 \<times> \<bar>x\<bar>\<close>.
\<close>

theorem square_root_spec:
  "(square_root x = Inl (ValueError ''Cannot calculate square root of a negative number''))
     = py_lt x (PInt 0)
   \<and> (is_number x \<longrightarrow> (\<exists>msg. square_root x = Inl (ValueError msg)) = py_lt x (PInt 0))
   \<and> (\<not> py_lt x (PInt 0) \<and> int_too_large x
      \<longrightarrow> square_root x = Inl (OverflowError ''int too large to convert to float''))
   \<and> (\<not> py_lt x (PInt 0) \<and> is_number x \<and> as_double x = Inr (Finite s m) \<and> m \<noteq> 0
      \<longrightarrow> (\<exists>r. round_mag (sqrt m) = Some r \<and> square_root x = Inr (PFloat (Finite False r))))
   \<and> (\<not> py_lt x (PInt 0) \<and> as_double x = Inr (Finite s 0)
      \<longrightarrow> square_root x = Inr (PFloat (Finite s 0)))
   \<and> square_root (PFloat (Infinity False)) = Inr (PFloat (Infinity False))
   \<and> square_root (PFloat NaN) = Inr (PFloat NaN)
   \<and> (is_number x \<and> py_le (PInt 0) x \<and> square_root x = Inr r \<longrightarrow> py_le (PInt 0) r)
   \<and> (is_number x \<and> is_finite x \<and> square_root x = Inr r
      \<longrightarrow> is_finite r \<and> \<bar>val r * val r - val x\<bar> \<le> 2 powi (- 50) * \<bar>val x\<bar>)"
proof (intro conjI impI)
  show "(square_root x = Inl (ValueError ''Cannot calculate square root of a negative number''))
     = py_lt x (PInt 0)"
    using math_sqrt_error [of x] by (auto simp: square_root_def)
  show "(\<exists>msg. square_root x = Inl (ValueError msg)) = py_lt x (PInt 0)" if "is_number x"
    using that math_sqrt_no_value_error [of x] by (auto simp: square_root_def)
  show "square_root x = Inl (OverflowError ''int too large to convert to float'')"
    if "\<not> py_lt x (PInt 0) \<and> int_too_large x"
    using that by (simp add: square_root_def math_sqrt_def as_double_too_large)
  show "\<exists>r. round_mag (sqrt m) = Some r \<and> square_root x = Inr (PFloat (Finite False r))"
    if "\<not> py_lt x (PInt 0) \<and> is_number x \<and> as_double x = Inr (Finite s m) \<and> m \<noteq> 0"
    using that square_root_positive [of x s m] by blast
  show "square_root x = Inr (PFloat (Finite s 0))"
    if "\<not> py_lt x (PInt 0) \<and> as_double x = Inr (Finite s 0)"
    using that by (simp add: square_root_def math_sqrt_def)
  show "square_root (PFloat (Infinity False)) = Inr (PFloat (Infinity False))"
    by (simp add: square_root_def math_sqrt_def py_lt_def)
  show "square_root (PFloat NaN) = Inr (PFloat NaN)"
    by (simp add: square_root_def math_sqrt_def py_lt_def)
  show "py_le (PInt 0) r" if h: "is_number x \<and> py_le (PInt 0) x \<and> square_root x = Inr r"
  proof -
    from h have le: "fle (Finite False 0) (exact x)" by (simp add: py_le_def)
    then have nl: "\<not> py_lt x (PInt 0)" using fle_not_fless by (simp add: py_lt_def)
    with h have ms: "math_sqrt x = Inr r" by (simp add: square_root_def)
    then obtain z where z: "as_double x = Inr z"
      by (cases "as_double x") (simp_all add: math_sqrt_def)
    show ?thesis
    proof (cases z)
      case NaN
      with z have "x = PFloat NaN" by (cases x) (auto split: option.splits)
      with le show ?thesis by (simp add: fle_def)
    next
      case (Infinity u)
      with z have "x = PFloat (Infinity u)" by (cases x) (auto split: option.splits)
      with nl ms show ?thesis
        by (auto simp: py_lt_def py_le_def fle_def math_sqrt_def split: if_splits)
    next
      case (Finite u n)
      show ?thesis
      proof (cases "n = 0")
        case True
        with ms z Finite show ?thesis
          by (auto simp: math_sqrt_def py_le_def fle_def signed_def split: if_splits)
      next
        case False
        from z Finite have "as_double x = Inr (Finite u n)" by simp
        from square_root_positive [OF nl _ this False] h obtain q where
          "0 < q" "square_root x = Inr (PFloat (Finite False q))" by blast
        with h show ?thesis by (auto simp: py_le_def fle_def signed_def)
      qed
    qed
  qed
  have fin: "is_finite r \<and> \<bar>val r * val r - val x\<bar> \<le> 2 powi (- 50) * \<bar>val x\<bar>"
    if h: "is_number x \<and> is_finite x \<and> square_root x = Inr r"
  proof -
    from h have nl: "\<not> py_lt x (PInt 0)" by (auto simp: square_root_def split: if_splits)
    with h have ms: "math_sqrt x = Inr r" by (simp add: square_root_def)
    then obtain z where z: "as_double x = Inr z"
      by (cases "as_double x") (simp_all add: math_sqrt_def)
    from h have fx: "is_finite x" and nx: "is_number x" by blast+
    note eb = as_double_error_bound [OF z fx]
    from eb(1) obtain u n where f: "z = Finite u n" by blast
    show ?thesis
    proof (cases "n = 0")
      case True
      with ms z f have r: "r = PFloat (Finite u 0)" by (simp add: math_sqrt_def)
      from as_double_is_zero [OF z] f True have "is_zero x" by simp
      then have "val x = 0" by (rule is_zero_val)
      with r show ?thesis by (simp add: signed_def)
    next
      case False
      from z f have zz: "as_double x = Inr (Finite u n)" by simp
      from square_root_positive [OF nl nx zz False] h obtain q where
        q: "\<bar>q * q - n\<bar> \<le> 3 * (n * 2 powi (- 53))" "r = PFloat (Finite False q)"
        by auto
      from nonneg_sign(1) [OF nl nx zz False] f have "dval z = n" by (simp add: signed_def)
      with eb(2) have "\<bar>n - val x\<bar> \<le> \<bar>val x\<bar> * 2 powi (- 53)" by simp
      from sqrt_trip_bound [OF q(1) this refl]
      have "\<bar>q * q - val x\<bar> \<le> 8 * 2 powi (- 53) * \<bar>val x\<bar>"
        by (simp add: power_int_minus_divide)
      moreover have "8 * (2::real) powi (- 53) = 2 powi (- 50)"
        by (simp add: power_int_minus_divide)
      ultimately have "\<bar>q * q - val x\<bar> \<le> 2 powi (- 50) * \<bar>val x\<bar>" by (simp only:)
      with q(2) show ?thesis by (simp add: signed_def)
    qed
  qed
  show "is_finite r" if "is_number x \<and> is_finite x \<and> square_root x = Inr r"
    using fin [OF that] by blast
  show "\<bar>val r * val r - val x\<bar> \<le> 2 powi (- 50) * \<bar>val x\<bar>"
    if "is_number x \<and> is_finite x \<and> square_root x = Inr r"
    using fin [OF that] by blast
qed


theorem square_root_spec_witness:
  "square_root (PFloat (Finite True 4))
     = Inl (ValueError ''Cannot calculate square root of a negative number'')
   \<and> square_root (PInt (10 ^ 400 * 10)) = Inl (OverflowError ''int too large to convert to float'')
   \<and> square_root (PFloat (Finite False 16)) = Inr (PFloat (Finite False 4))
   \<and> square_root (PFloat (Finite True 0)) = Inr (PFloat (Finite True 0))
   \<and> py_le (PInt 0) (PFloat (Finite False 4))
   \<and> \<bar>val (PFloat (Finite False 4)) * val (PFloat (Finite False 4)) - val (PFloat (Finite False 16))\<bar>
       \<le> 2 powi (- 50) * \<bar>val (PFloat (Finite False 16))\<bar>"
proof -
  note A = square_root_spec [where x = "PFloat (Finite True 4)"]
  note B = square_root_spec [where x = "PInt (10 ^ 400 * 10)"]
  note C = square_root_spec [where x = "PFloat (Finite False 16)" and s = False and m = 16
      and r = "PFloat (Finite False 4)"]
  note D = square_root_spec [where x = "PFloat (Finite True 0)" and s = True]
  have n4: "is_number (PFloat (Finite True 4))" by (simp add: ev)
  have l4: "py_lt (PFloat (Finite True 4)) (PInt 0)" by (simp add: ev)
  from A [THEN conjunct2, THEN conjunct1] n4 l4
  have "\<exists>msg. square_root (PFloat (Finite True 4)) = Inl (ValueError msg)" by simp
  have 1: "square_root (PFloat (Finite True 4))
     = Inl (ValueError ''Cannot calculate square root of a negative number'')"
    using A [THEN conjunct1] l4 by simp
  have "(10::real) ^ 400 \<le> 10 ^ 400 * 10" by (simp del: power_numeral)
  with ten_pow_400_overflows have "(2::real) powi 1024 \<le> 10 ^ 400 * 10" by linarith
  then have "round_mag (10 ^ 400 * 10) = None" by (rule round_mag_overflow)
  then have tl: "int_too_large (PInt (10 ^ 400 * 10))" by (simp del: power_numeral)
  have nl: "\<not> py_lt (PInt (10 ^ 400 * 10)) (PInt 0)"
    by (simp add: py_lt_def signed_def del: power_numeral)
  have 2: "square_root (PInt (10 ^ 400 * 10))
      = Inl (OverflowError ''int too large to convert to float'')"
    using B [THEN conjunct2, THEN conjunct2, THEN conjunct1, THEN mp, OF conjI, OF nl tl] .
  have n16: "is_number (PFloat (Finite False 16))" by (simp add: ev)
  have l16: "\<not> py_lt (PFloat (Finite False 16)) (PInt 0)" by (simp add: ev)
  have r4: "round_mag (sqrt 16) = Some 4" by (simp add: sqrt_16 ev)
  have 3: "square_root (PFloat (Finite False 16)) = Inr (PFloat (Finite False 4))"
    using C [THEN conjunct2, THEN conjunct2, THEN conjunct2, THEN conjunct1] n16 l16 r4
    by auto
  have l0: "\<not> py_lt (PFloat (Finite True 0)) (PInt 0)" by (simp add: ev)
  have 4: "square_root (PFloat (Finite True 0)) = Inr (PFloat (Finite True 0))"
    using D [THEN conjunct2, THEN conjunct2, THEN conjunct2, THEN conjunct2, THEN conjunct1] l0
    by simp
  have le16: "py_le (PInt 0) (PFloat (Finite False 16))" by (simp add: ev)
  have 5: "py_le (PInt 0) (PFloat (Finite False 4))"
    using C [THEN conjunct2, THEN conjunct2, THEN conjunct2, THEN conjunct2, THEN conjunct2,
        THEN conjunct2, THEN conjunct2, THEN conjunct1, THEN mp, OF conjI, OF n16 conjI,
        OF le16 3] .
  have f16: "is_finite (PFloat (Finite False 16))" by simp
  have 6: "\<bar>val (PFloat (Finite False 4)) * val (PFloat (Finite False 4))
        - val (PFloat (Finite False 16))\<bar>
       \<le> 2 powi (- 50) * \<bar>val (PFloat (Finite False 16))\<bar>"
    using C [THEN conjunct2, THEN conjunct2, THEN conjunct2, THEN conjunct2, THEN conjunct2,
        THEN conjunct2, THEN conjunct2, THEN conjunct2, THEN mp, OF conjI, OF n16 conjI,
        OF f16 3, THEN conjunct2] .
  from 1 2 3 4 5 6 show ?thesis by blast
qed

text \<open>
  The claim as stated, that every \<open>x \<ge> 0\<close> succeeds, fails on an \<^verbatim>\<open>int\<close> too large for a
  float: \<^verbatim>\<open>square_root(10**400)\<close> raises \<^verbatim>\<open>OverflowError\<close>.
\<close>

theorem square_root_overflow_counterexample:
  "py_le (PInt 0) (PInt (10 ^ 400))
   \<and> square_root (PInt (10 ^ 400)) = Inl (OverflowError ''int too large to convert to float'')"
proof (intro conjI)
  show "py_le (PInt 0) (PInt (10 ^ 400))"
    by (simp add: py_le_def fle_def signed_def del: power_numeral)
  have "round_mag (10 ^ 400) = None" using ten_pow_400_overflows by (rule round_mag_overflow)
  then show "square_root (PInt (10 ^ 400))
      = Inl (OverflowError ''int too large to convert to float'')"
    by (simp add: square_root_def math_sqrt_def py_lt_def signed_def del: power_numeral)
qed

end
